theory Spec2Isabelle
  imports Complex_Main "HOL-Library.Multiset"
begin

unbundle bit_operations_syntax

section \<open>Numbers\<close>

text \<open>
  A JavaScript number is an IEEE double. The model keeps the special values apart and
  takes a finite value as the real number it denotes. \<open>Fin 0\<close> is the positive zero.
\<close>

datatype number = NaN | NegInfinity | PosInfinity | NegZero | Fin real

text \<open>The class of a number on the extended line, and its value inside the finite class.\<close>

fun rank :: "number \<Rightarrow> int" where
  "rank NegInfinity = -1"
| "rank PosInfinity = 1"
| "rank _ = 0"

fun val :: "number \<Rightarrow> real" where
  "val (Fin r) = r"
| "val _ = 0"

text \<open>
  The relational operator \<open><\<close> on numbers: false when an operand is NaN; the two
  zeros compare equal.
\<close>

definition less_number :: "number \<Rightarrow> number \<Rightarrow> bool" where
  "less_number a b =
     (a \<noteq> NaN \<and> b \<noteq> NaN \<and> (rank a < rank b \<or> (rank a = 0 \<and> rank b = 0 \<and> val a < val b)))"

text \<open>
  \<open>ToInt32\<close> and \<open>ToUint32\<close>, the coercions behind \<open>| 0\<close>, \<open>~\<close> and \<open>>>>\<close>:
  truncation towards zero, then reduction modulo \<open>2^32\<close>; NaN, the infinities and the
  zeros give 0.
\<close>

definition trunc :: "real \<Rightarrow> int" where
  "trunc r = (if r < 0 then \<lceil>r\<rceil> else \<lfloor>r\<rfloor>)"

definition wrapInt32 :: "int \<Rightarrow> int" where
  "wrapInt32 k = (k + 2 ^ 31) mod 2 ^ 32 - 2 ^ 31"

definition wrapUint32 :: "int \<Rightarrow> int" where
  "wrapUint32 k = k mod 2 ^ 32"

fun ToInt32 :: "number \<Rightarrow> int" where
  "ToInt32 (Fin r) = wrapInt32 (trunc r)"
| "ToInt32 _ = 0"

text \<open>
  Division, multiplication and \<open>Math.min\<close> on numbers, with the IEEE rules for the
  special values: the sign of a quotient or product is the exclusive or of the signs, a
  non-zero value over a zero is an infinity, \<open>0/0\<close>, \<open>\<infinity>/\<infinity>\<close> and \<open>0 * \<infinity>\<close> are NaN, and
  \<open>Math.min\<close> puts the negative zero below the positive one. The quotient and the
  product of two finite values are taken exactly here.
\<close>

fun signBit :: "number \<Rightarrow> bool" where
  "signBit NegInfinity = True"
| "signBit NegZero = True"
| "signBit (Fin r) = (r < 0)"
| "signBit _ = False"

definition isZero :: "number \<Rightarrow> bool" where
  "isZero a = (a = NegZero \<or> a = Fin 0)"

definition isInfinite :: "number \<Rightarrow> bool" where
  "isInfinite a = (a = NegInfinity \<or> a = PosInfinity)"

definition signedZero :: "bool \<Rightarrow> number" where
  "signedZero negative = (if negative then NegZero else Fin 0)"

definition signedInfinity :: "bool \<Rightarrow> number" where
  "signedInfinity negative = (if negative then NegInfinity else PosInfinity)"

definition divide_number :: "number \<Rightarrow> number \<Rightarrow> number" where
  "divide_number a b =
     (if a = NaN \<or> b = NaN then NaN
      else if isInfinite a then
        (if isInfinite b then NaN else signedInfinity (signBit a \<noteq> signBit b))
      else if isInfinite b then signedZero (signBit a \<noteq> signBit b)
      else if isZero b then
        (if isZero a then NaN else signedInfinity (signBit a \<noteq> signBit b))
      else if isZero a then signedZero (signBit a \<noteq> signBit b)
      else Fin (val a / val b))"

definition times_number :: "number \<Rightarrow> number \<Rightarrow> number" where
  "times_number a b =
     (if a = NaN \<or> b = NaN then NaN
      else if isInfinite a \<or> isInfinite b then
        (if isZero a \<or> isZero b then NaN else signedInfinity (signBit a \<noteq> signBit b))
      else if isZero a \<or> isZero b then signedZero (signBit a \<noteq> signBit b)
      else Fin (val a * val b))"

definition min_number :: "number \<Rightarrow> number \<Rightarrow> number" where
  "min_number a b =
     (if a = NaN \<or> b = NaN then NaN
      else if less_number b a then b
      else if less_number a b then a
      else if a = NegZero \<or> b = NegZero then NegZero
      else a)"

text \<open>The relational operator \<open><=\<close> on numbers: false when an operand is NaN.\<close>

definition lessEq_number :: "number \<Rightarrow> number \<Rightarrow> bool" where
  "lessEq_number a b = (a \<noteq> NaN \<and> b \<noteq> NaN \<and> \<not> less_number b a)"

section \<open>Rounded arithmetic\<close>

text \<open>
  The operators \<open>+\<close>, \<open>-\<close>, \<open>*\<close> and \<open>/\<close> give the exact result rounded to a double.
  The rounding is a parameter of the model: \<open>nearest\<close> tells, for the exact result of
  an operation, the finite value it is rounded to, or that it overflows the doubles, or
  that it underflows to a zero. The operator \<open>**\<close> and the functions \<open>Math.atan2\<close>,
  \<open>Math.cos\<close> and \<open>Math.sin\<close> are approximated by the implementation; they are
  parameters too. What is proved of a function that takes an \<open>engine\<close> holds whatever
  the rounding and the approximations are.
\<close>

datatype rounded = Nearest real | Overflow | Underflow

record engine =
  nearest :: "real \<Rightarrow> rounded"
  Math_pow :: "number \<Rightarrow> number \<Rightarrow> number"
  Math_atan2 :: "number \<Rightarrow> number \<Rightarrow> number"
  Math_cos :: "number \<Rightarrow> number"
  Math_sin :: "number \<Rightarrow> number"

text \<open>
  The double for an exact result other than zero. An integer of magnitude at most
  \<open>2^53\<close> is a double and is its own rounding; an overflow gives the infinity, and an
  underflow the zero, of the sign of the exact result.
\<close>

definition double :: "engine \<Rightarrow> real \<Rightarrow> number" where
  "double e x =
     (if of_int \<lfloor>x\<rfloor> = x \<and> \<bar>x\<bar> \<le> 2 ^ 53 then Fin x
      else case nearest e x of
             Nearest r \<Rightarrow> Fin r
           | Overflow \<Rightarrow> signedInfinity (x < 0)
           | Underflow \<Rightarrow> signedZero (x < 0))"

fun negate :: "number \<Rightarrow> number" where
  "negate NaN = NaN"
| "negate NegInfinity = PosInfinity"
| "negate PosInfinity = NegInfinity"
| "negate NegZero = Fin 0"
| "negate (Fin r) = (if r = 0 then NegZero else Fin (- r))"

text \<open>
  The sum: NaN with a NaN operand and for \<open>\<infinity> + -\<infinity>\<close>; an exact sum of zero is the
  positive zero, unless both operands are the negative zero. The difference \<open>a - b\<close> is
  the sum of \<open>a\<close> and \<open>-b\<close>.
\<close>

definition plus_double :: "engine \<Rightarrow> number \<Rightarrow> number \<Rightarrow> number" where
  "plus_double e a b =
     (if a = NaN \<or> b = NaN then NaN
      else if isInfinite a then (if isInfinite b \<and> a \<noteq> b then NaN else a)
      else if isInfinite b then b
      else if val a + val b = 0 then (if a = NegZero \<and> b = NegZero then NegZero else Fin 0)
      else double e (val a + val b))"

definition minus_double :: "engine \<Rightarrow> number \<Rightarrow> number \<Rightarrow> number" where
  "minus_double e a b = plus_double e a (negate b)"

definition times_double :: "engine \<Rightarrow> number \<Rightarrow> number \<Rightarrow> number" where
  "times_double e a b =
     (if a = NaN \<or> b = NaN then NaN
      else if isInfinite a \<or> isInfinite b then
        (if isZero a \<or> isZero b then NaN else signedInfinity (signBit a \<noteq> signBit b))
      else if isZero a \<or> isZero b then signedZero (signBit a \<noteq> signBit b)
      else double e (val a * val b))"

definition divide_double :: "engine \<Rightarrow> number \<Rightarrow> number \<Rightarrow> number" where
  "divide_double e a b =
     (if a = NaN \<or> b = NaN then NaN
      else if isInfinite a then
        (if isInfinite b then NaN else signedInfinity (signBit a \<noteq> signBit b))
      else if isInfinite b then signedZero (signBit a \<noteq> signBit b)
      else if isZero b then
        (if isZero a then NaN else signedInfinity (signBit a \<noteq> signBit b))
      else if isZero a then signedZero (signBit a \<noteq> signBit b)
      else double e (val a / val b))"

text \<open>
  \<open>Math.floor\<close> and \<open>Math.round\<close> are exact. They keep NaN, the infinities and the
  zeros. \<open>Math.round\<close> gives the nearest integer, a half upwards, and the negative zero
  for a value in \<open>[-0.5, 0)\<close>.
\<close>

fun Math_floor :: "number \<Rightarrow> number" where
  "Math_floor (Fin r) = Fin (of_int \<lfloor>r\<rfloor>)"
| "Math_floor a = a"

fun Math_round :: "number \<Rightarrow> number" where
  "Math_round (Fin r) =
     (if \<lfloor>r + 1 / 2\<rfloor> = 0 then signedZero (r < 0) else Fin (of_int \<lfloor>r + 1 / 2\<rfloor>))"
| "Math_round a = a"

text \<open>In arithmetic \<open>undefined\<close> is converted to NaN.\<close>

definition toNumber :: "number option \<Rightarrow> number" where
  "toNumber v = (case v of None \<Rightarrow> NaN | Some a \<Rightarrow> a)"

section \<open>binarySearch\<close>

datatype error = RangeError string | Error string

text \<open>
  An array is a list. The read \<open>haystack[i]\<close> is the element at an index of the array
  and \<open>undefined\<close> (\<open>None\<close>) at any other integer.
\<close>

definition element :: "'a list \<Rightarrow> int \<Rightarrow> 'a option" where
  "element xs i = (if 0 \<le> i \<and> i < int (length xs) then Some (xs ! nat i) else None)"

text \<open>
  The read \<open>values[i]\<close> with a number for \<open>i\<close>: the element when \<open>i\<close> is an integer
  and an index of the array (the negative zero is the index 0), \<open>undefined\<close> otherwise.
\<close>

fun elementAt :: "'a list \<Rightarrow> number \<Rightarrow> 'a option" where
  "elementAt xs (Fin r) = (if of_int \<lfloor>r\<rfloor> = r then element xs \<lfloor>r\<rfloor> else None)"
| "elementAt xs NegZero = element xs 0"
| "elementAt xs _ = None"

text \<open>
  The comparator receives the element read, the needle, the index and the array, and
  returns a number.
\<close>

type_synonym ('a, 'q) comparator = "'a option \<Rightarrow> 'q \<Rightarrow> int \<Rightarrow> 'a list \<Rightarrow> number"

text \<open>
  The \<open>while\<close> loop of \<open>binarySearch\<close>. Indices are integers: \<open>low\<close> and \<open>high\<close>
  enter as integers and every update keeps them so. The shift \<open>>>> 1\<close> halves the
  difference read as an unsigned 32-bit integer, and \<open>~\<close> complements \<open>low\<close> read as a
  signed one. The last argument records the indices at which the comparator has been
  called, in order; the loop returns it beside the result, so that the calls of the
  comparator can be stated.
\<close>

function binarySearch_loop ::
  "'a list \<Rightarrow> 'q \<Rightarrow> ('a, 'q) comparator \<Rightarrow> int \<Rightarrow> int \<Rightarrow> int list \<Rightarrow> int \<times> int list" where
  "binarySearch_loop haystack needle comparator low high calls =
     (if low \<le> high then
        let mid = low + drop_bit 1 (wrapUint32 (high - low));
            cmp = comparator (element haystack mid) needle mid haystack
        in if less_number cmp (Fin 0) then
             binarySearch_loop haystack needle comparator (mid + 1) high (calls @ [mid])
           else if less_number (Fin 0) cmp then
             binarySearch_loop haystack needle comparator low (mid - 1) (calls @ [mid])
           else (mid, calls @ [mid])
      else (NOT (wrapInt32 low), calls))"
  by pat_completeness auto
termination
proof (relation "measure (\<lambda>(haystack, needle, comparator, low, high, calls). nat (high - low + 1))")
  show "wf (measure (\<lambda>(haystack :: 'a list, needle :: 'q, comparator :: ('a, 'q) comparator,
      low, high, calls :: int list). nat (high - low + 1)))"
    by simp
next
  fix haystack :: "'a list" and needle :: 'q and comparator :: "('a, 'q) comparator"
    and low high mid :: int and calls :: "int list" and cmp :: number
  assume le: "low \<le> high" and mid: "mid = low + drop_bit 1 (wrapUint32 (high - low))"
  have "0 \<le> wrapUint32 (high - low)" "wrapUint32 (high - low) \<le> high - low"
    using le by (simp_all add: wrapUint32_def zmod_le_nonneg_dividend)
  then have "0 \<le> drop_bit 1 (wrapUint32 (high - low))"
    "drop_bit 1 (wrapUint32 (high - low)) \<le> high - low"
    by (simp_all add: drop_bit_eq_div)
  then have bounds: "low \<le> mid" "mid \<le> high"
    using mid by simp_all
  show "((haystack, needle, comparator, mid + 1, high, calls @ [mid]),
         (haystack, needle, comparator, low, high, calls)) \<in>
        measure (\<lambda>(haystack, needle, comparator, low, high, calls). nat (high - low + 1))"
    using bounds by simp
  show "((haystack, needle, comparator, low, mid - 1, calls @ [mid]),
         (haystack, needle, comparator, low, high, calls)) \<in>
        measure (\<lambda>(haystack, needle, comparator, low, high, calls). nat (high - low + 1))"
    using bounds by simp
qed

declare binarySearch_loop.simps [simp del]

text \<open>
  The function: the default or the check of each bound, then the loop. An omitted bound
  is \<open>None\<close>; a supplied one is coerced by \<open>| 0\<close>. The result is the returned
  number and the comparator's calls.
\<close>

definition lowerBound :: "'a list \<Rightarrow> number option \<Rightarrow> error + int" where
  "lowerBound haystack low =
     (case low of
        None \<Rightarrow> Inr 0
      | Some l \<Rightarrow>
          (if ToInt32 l < 0 \<or> ToInt32 l \<ge> int (length haystack)
           then Inl (RangeError ''invalid lower bound'') else Inr (ToInt32 l)))"

definition upperBound :: "'a list \<Rightarrow> int \<Rightarrow> number option \<Rightarrow> error + int" where
  "upperBound haystack low high =
     (case high of
        None \<Rightarrow> Inr (int (length haystack) - 1)
      | Some h \<Rightarrow>
          (if ToInt32 h < low \<or> ToInt32 h \<ge> int (length haystack)
           then Inl (RangeError ''invalid upper bound'') else Inr (ToInt32 h)))"

definition binarySearch_run ::
  "'a list \<Rightarrow> 'q \<Rightarrow> ('a, 'q) comparator \<Rightarrow> number option \<Rightarrow> number option
   \<Rightarrow> error + int \<times> int list" where
  "binarySearch_run haystack needle comparator low high =
     (case lowerBound haystack low of
        Inl e \<Rightarrow> Inl e
      | Inr low' \<Rightarrow>
          (case upperBound haystack low' high of
             Inl e \<Rightarrow> Inl e
           | Inr high' \<Rightarrow> Inr (binarySearch_loop haystack needle comparator low' high' [])))"

definition binarySearch ::
  "'a list \<Rightarrow> 'q \<Rightarrow> ('a, 'q) comparator \<Rightarrow> number option \<Rightarrow> number option \<Rightarrow> error + int" where
  "binarySearch haystack needle comparator low high =
     map_sum id fst (binarySearch_run haystack needle comparator low high)"

definition comparatorCalls ::
  "'a list \<Rightarrow> 'q \<Rightarrow> ('a, 'q) comparator \<Rightarrow> number option \<Rightarrow> number option
   \<Rightarrow> error + int list" where
  "comparatorCalls haystack needle comparator low high =
     map_sum id snd (binarySearch_run haystack needle comparator low high)"

text \<open>
  The comparator's answer at an index of the array, and the three answers the loop tells
  apart: \<open>cmp < 0.0\<close>, \<open>cmp > 0.0\<close>, and neither. A number \<open>== 0\<close> is one of the zeros.
\<close>

definition cmpAt :: "('a, 'q) comparator \<Rightarrow> 'a list \<Rightarrow> 'q \<Rightarrow> int \<Rightarrow> number" where
  "cmpAt comparator haystack needle i = comparator (element haystack i) needle i haystack"

definition isNegative :: "number \<Rightarrow> bool" where
  "isNegative c = less_number c (Fin 0)"

definition isPositive :: "number \<Rightarrow> bool" where
  "isPositive c = less_number (Fin 0) c"

definition comparisons :: "('a, 'q) comparator \<Rightarrow> 'q \<Rightarrow> 'a list \<Rightarrow> number list" where
  "comparisons comparator needle haystack =
     map (\<lambda>i. cmpAt comparator haystack needle (int i)) [0..<length haystack]"

definition sign :: "number \<Rightarrow> int" where
  "sign c = (if isNegative c then -1 else if isPositive c then 1 else 0)"

text \<open>
  A sequence is ordered for a three-way comparator and a needle when no comparison is
  NaN and the signs of the comparisons ascend along the sequence: the elements below the
  needle, then those equal to it, then those above it.
\<close>

definition orderedFor :: "('a, 'q) comparator \<Rightarrow> 'q \<Rightarrow> 'a list \<Rightarrow> bool" where
  "orderedFor comparator needle haystack =
     (NaN \<notin> set (comparisons comparator needle haystack) \<and>
      sorted (map sign (comparisons comparator needle haystack)))"

text \<open>
  A position \<open>p\<close> at which the needle can be inserted: every element before it is
  below the needle and every element from it on is above.
\<close>

definition insertionPoint :: "('a, 'q) comparator \<Rightarrow> 'q \<Rightarrow> 'a list \<Rightarrow> nat \<Rightarrow> bool" where
  "insertionPoint comparator needle haystack p =
     (p \<le> length haystack \<and>
      list_all isNegative (take p (comparisons comparator needle haystack)) \<and>
      list_all isPositive (drop p (comparisons comparator needle haystack)))"

definition found :: "('a, 'q) comparator \<Rightarrow> 'q \<Rightarrow> 'a list \<Rightarrow> bool" where
  "found comparator needle haystack =
     list_ex isZero (comparisons comparator needle haystack)"

text \<open>
  The difference \<open>a - b\<close> of the comparator \<open>(a, b) => a - b\<close>: NaN with a NaN operand
  and for the difference of an infinity and itself. \<open>binarySearch\<close> and \<open>sort\<close> read
  its sign only, and rounding keeps the sign: the difference of two distinct doubles is
  never rounded to zero, and one that overflows is the infinity of its sign. So the
  difference of two finite values is taken exactly here.
\<close>

definition subtract :: "number \<Rightarrow> number \<Rightarrow> number" where
  "subtract a b =
     (if a = NaN \<or> b = NaN then NaN
      else if isInfinite a then (if a = b then NaN else a)
      else if isInfinite b then negate b
      else if val a = val b then (if a = NegZero \<and> b = Fin 0 then NegZero else Fin 0)
      else Fin (val a - val b))"

text \<open>
  The comparator \<open>(a, b) => a - b\<close> as \<open>binarySearch\<close> calls it. With \<open>undefined\<close> for
  \<open>a\<close> the difference is NaN.
\<close>

definition difference :: "(number, number) comparator" where
  "difference a b i haystack = (case a of None \<Rightarrow> NaN | Some a' \<Rightarrow> subtract a' b)"

section \<open>SortedMap\<close>

text \<open>
  A \<open>Map\<close> compares keys by SameValueZero: NaN is the same key as NaN, and the negative
  zero the same key as the positive one, which is the key the map keeps. The \<open>Map\<close> is a
  partial function on the keys so normalised.
\<close>

definition mapKey :: "number \<Rightarrow> number" where
  "mapKey key = (if key = NegZero then Fin 0 else key)"

text \<open>
  \<open>Array.prototype.sort\<close> with the comparator \<open>(a, b) => a - b\<close>. It takes a
  comparison that is NaN as 0. The language leaves the order of the result to the
  implementation when the comparator is not consistent, and this one is not on a sequence
  that holds NaN beside two other numbers. The model is the insertion sort: each element in
  turn is moved left past the elements that compare greater than it. \<open>insertKey\<close> takes
  the sorted elements backwards, the last one first.
\<close>

definition sortCompare :: "number \<Rightarrow> number \<Rightarrow> number" where
  "sortCompare a b = (if subtract a b = NaN then Fin 0 else subtract a b)"

fun insertKey :: "number \<Rightarrow> number list \<Rightarrow> number list" where
  "insertKey x [] = [x]"
| "insertKey x (y # ys) =
     (if isPositive (sortCompare y x) then y # insertKey x ys else x # y # ys)"

definition sortArray :: "number list \<Rightarrow> number list" where
  "sortArray xs = foldl (\<lambda>sorted x. rev (insertKey x (rev sorted))) [] xs"

text \<open>The class \<open>SortedMap\<close>: the \<open>Map\<close> and the array \<open>sortedKeys\<close>.\<close>

record 'v SortedMap =
  map_sm :: "number \<rightharpoonup> 'v"
  sortedKeys :: "number list"

definition new_SortedMap :: "'v SortedMap" where
  "new_SortedMap = \<lparr>map_sm = Map.empty, sortedKeys = []\<rparr>"

definition has :: "'v SortedMap \<Rightarrow> number \<Rightarrow> bool" where
  "has m key = (map_sm m (mapKey key) \<noteq> None)"

definition set_sm :: "'v SortedMap \<Rightarrow> number \<Rightarrow> 'v \<Rightarrow> 'v SortedMap" where
  "set_sm m key v =
     \<lparr>map_sm = (map_sm m)(mapKey key \<mapsto> v),
      sortedKeys = (if \<not> has m key then sortArray (sortedKeys m @ [key]) else sortedKeys m)\<rparr>"

text \<open>
  \<open>findNearest\<close>: a read of \<open>sortedKeys\<close> outside the array is \<open>undefined\<close>, which is
  no key of the map, so \<open>get\<close> answers \<open>undefined\<close> (\<open>None\<close>).
\<close>

definition findNearest :: "'v SortedMap \<Rightarrow> number \<Rightarrow> error + 'v option" where
  "findNearest m targetKey =
     (case binarySearch (sortedKeys m) targetKey difference None None of
        Inl e \<Rightarrow> Inl e
      | Inr index \<Rightarrow>
          (let keyIndex = (if index < 0 then \<bar>index\<bar> - 2 else index)
           in Inr (case element (sortedKeys m) keyIndex of
                     None \<Rightarrow> None
                   | Some key \<Rightarrow> map_sm m (mapKey key))))"

definition clear :: "'v SortedMap \<Rightarrow> 'v SortedMap" where
  "clear m = \<lparr>map_sm = Map.empty, sortedKeys = []\<rparr>"

text \<open>The operations of the class; a map is reached by performing a sequence of them.\<close>

datatype 'v operation = Set number 'v | FindNearest number | Has number | Clear

fun perform :: "'v SortedMap \<Rightarrow> 'v operation \<Rightarrow> 'v SortedMap" where
  "perform m (Set key v) = set_sm m key v"
| "perform m (FindNearest targetKey) = m"
| "perform m (Has key) = m"
| "perform m Clear = clear m"

definition reached :: "'v operation list \<Rightarrow> 'v SortedMap" where
  "reached ops = foldl perform new_SortedMap ops"

text \<open>
  The invariant: the key sequence ascends, no key is in it twice, and its keys are the
  keys of the mapping.
\<close>

definition invariant :: "'v SortedMap \<Rightarrow> bool" where
  "invariant m =
     (sorted_wrt lessEq_number (sortedKeys m) \<and> distinct (map mapKey (sortedKeys m)) \<and>
      mapKey ` set (sortedKeys m) = dom (map_sm m))"

section \<open>createChangeTracker\<close>

text \<open>
  Modelled from the spec: \<open>deepEqual\<close> comes from the fast-equals package, whose source
  is not part of the repository. It is the deep structural equality of two values. The
  values of the model are structures, not references, so it is their equality.
\<close>

definition deepEqual :: "'a \<Rightarrow> 'a \<Rightarrow> bool" where
  "deepEqual a b = (a = b)"

text \<open>
  The closure \<open>checkArgs\<close> and the two variables it captures; \<open>previousArgs\<close> is
  \<open>undefined\<close> (\<open>None\<close>) at first. An array is truthy, the empty one too, so
  \<open>!previousArgs\<close> holds of \<open>undefined\<close> only.
\<close>

record 'a tracker =
  trueOnFirstCall :: bool
  previousArgs :: "'a list option"

definition createChangeTracker :: "bool option \<Rightarrow> 'a tracker" where
  "createChangeTracker flag =
     \<lparr>trueOnFirstCall = (case flag of None \<Rightarrow> True | Some b \<Rightarrow> b), previousArgs = None\<rparr>"

definition checkArgs :: "'a tracker \<Rightarrow> 'a list \<Rightarrow> bool \<times> 'a tracker" where
  "checkArgs t args =
     (case previousArgs t of
        None \<Rightarrow> (trueOnFirstCall t, t\<lparr>previousArgs := Some args\<rparr>)
      | Some previous \<Rightarrow>
          (if deepEqual args previous then (False, t)
           else (True, t\<lparr>previousArgs := Some args\<rparr>)))"

text \<open>The answers of successive invocations.\<close>

fun invocations :: "'a tracker \<Rightarrow> 'a list list \<Rightarrow> bool list" where
  "invocations t [] = []"
| "invocations t (args # rest) = fst (checkArgs t args) # invocations (snd (checkArgs t args)) rest"

section \<open>Geometry\<close>


record 'n Point =
  px :: 'n
  py :: 'n

record 'n Dimension =
  width :: 'n
  height :: 'n



text \<open>
  Modelled from the spec: the same \<open>clamp\<close> of the remeda package on numbers, with the
  comparisons \<open><\<close> and \<open>>\<close> of the language, which are false when an operand is NaN.
\<close>

definition clamp_number :: "number \<Rightarrow> number option \<Rightarrow> number option \<Rightarrow> number" where
  "clamp_number v minLimit maxLimit =
     (if minLimit \<noteq> None \<and> less_number v (the minLimit) then the minLimit
      else if maxLimit \<noteq> None \<and> less_number (the maxLimit) v then the maxLimit
      else v)"

section \<open>adjustPointToCircle\<close>

text \<open>The squared distance \<open>d2\<close> that \<open>inRadius\<close> computes, and \<open>inRadius\<close>.\<close>

definition squaredDistance :: "engine \<Rightarrow> number Point \<Rightarrow> number Point \<Rightarrow> number" where
  "squaredDistance e p c =
     plus_double e (Math_pow e (minus_double e (px p) (px c)) (Fin 2))
       (Math_pow e (minus_double e (py p) (py c)) (Fin 2))"

definition inRadius :: "engine \<Rightarrow> number Point \<Rightarrow> number Point \<Rightarrow> number \<Rightarrow> bool" where
  "inRadius e p c r =
     (let d2 = squaredDistance e p c
      in lessEq_number d2 (Math_pow e r (Fin 2)))"

definition adjustPointToCircle ::
  "engine \<Rightarrow> number Point \<Rightarrow> number Point \<Rightarrow> number \<Rightarrow> number Point" where
  "adjustPointToCircle e p c r =
     (if inRadius e p c r then p
      else let theta = Math_atan2 e (minus_double e (py p) (py c)) (minus_double e (px p) (px c))
           in \<lparr>px = plus_double e (px c) (times_double e r (Math_cos e theta)),
               py = plus_double e (py c) (times_double e r (Math_sin e theta))\<rparr>)"

section \<open>interpolateNumber\<close>

definition lerp :: "engine \<Rightarrow> number \<Rightarrow> number \<Rightarrow> number \<Rightarrow> number" where
  "lerp e minimum maximum progress =
     plus_double e minimum (times_double e (minus_double e maximum minimum) progress)"

definition toFixed :: "engine \<Rightarrow> number \<Rightarrow> number option \<Rightarrow> number" where
  "toFixed e v decimal =
     (let d = (case decimal of None \<Rightarrow> Fin 1 | Some d' \<Rightarrow> d')
      in divide_double e (Math_round (times_double e v (Math_pow e (Fin 10) d)))
           (Math_pow e (Fin 10) d))"

text \<open>
  The index \<open>i\<close> that \<open>interpolateNumber\<close> computes from \<open>values\<close> and \<open>t\<close>. The
  length of an array is an integer below \<open>2^32\<close>; \<open>values.length - 1\<close> and \<open>n - 1\<close>
  are computed on integers, where the arithmetic of doubles is exact.
\<close>

definition segmentIndex :: "engine \<Rightarrow> number list \<Rightarrow> number \<Rightarrow> number" where
  "segmentIndex e values t =
     (let n = int (length values) - 1
      in clamp_number (Math_floor (times_double e t (Fin (of_int n))))
           (Some (Fin 0)) (Some (Fin (of_int (n - 1)))))"

text \<open>
  A read outside the array is \<open>undefined\<close>, which the arithmetic of \<open>lerp\<close> converts to
  NaN.
\<close>

definition interpolateNumber :: "engine \<Rightarrow> number list \<Rightarrow> number \<Rightarrow> number option \<Rightarrow> number" where
  "interpolateNumber e values t decimal =
     (let n = int (length values) - 1;
          i = segmentIndex e values t;
          start = elementAt values i;
          end' = elementAt values (plus_double e i (Fin 1));
          progress = times_double e (minus_double e t (divide_double e i (Fin (of_int n))))
                       (Fin (of_int n))
      in toFixed e (lerp e (toNumber start) (toNumber end') progress)
           (Some (case decimal of None \<Rightarrow> Fin 3 | Some d \<Rightarrow> d)))"

section \<open>calculateRatioDimensions\<close>

text \<open>\<open>String.prototype.split\<close> with a one-character separator.\<close>

fun split_string :: "char \<Rightarrow> string \<Rightarrow> string list" where
  "split_string separator [] = [[]]"
| "split_string separator (c # cs) =
     (if c = separator then [] # split_string separator cs
      else (c # hd (split_string separator cs)) # tl (split_string separator cs))"

definition resizeRectToFitAspectRatio :: "number Dimension \<Rightarrow> number \<Rightarrow> number Dimension" where
  "resizeRectToFitAspectRatio rect1 aspectRatio =
     (let newHeight = min_number (divide_number (width rect1) aspectRatio) (height rect1)
      in \<lparr>width = times_number aspectRatio newHeight, height = newHeight\<rparr>)"

text \<open>
  The conversion \<open>Number\<close> of a string to a number is a built-in of the language; the
  function takes it as its first argument.
\<close>

definition calculateRatioDimensions ::
  "(string \<Rightarrow> number) \<Rightarrow> number \<Rightarrow> number \<Rightarrow> string \<Rightarrow> error + number Dimension" where
  "calculateRatioDimensions Number w h aspectRatio =
     (let parts = split_string CHR '':'' aspectRatio
      in if length parts < 2 then
           Inl (Error (''aspectRatio must be in format of '' @ [CHR 0x22] @ ''a:b'' @ [CHR 0x22]))
         else
           (let antecedent = Number (parts ! 0);
                consequent = Number (parts ! 1);
                ratio = divide_number antecedent consequent
            in Inr (resizeRectToFitAspectRatio \<lparr>width = w, height = h\<rparr> ratio)))"

section \<open>Properties of binarySearch\<close>

lemma mid_bounds:
  assumes "low \<le> high"
  shows "low \<le> low + drop_bit 1 (wrapUint32 (high - low))"
    and "low + drop_bit 1 (wrapUint32 (high - low)) \<le> high"
proof -
  have "0 \<le> wrapUint32 (high - low)" "wrapUint32 (high - low) \<le> high - low"
    using assms by (simp_all add: wrapUint32_def zmod_le_nonneg_dividend)
  then have "0 \<le> drop_bit 1 (wrapUint32 (high - low))"
    "drop_bit 1 (wrapUint32 (high - low)) \<le> high - low"
    by (simp_all add: drop_bit_eq_div)
  then show "low \<le> low + drop_bit 1 (wrapUint32 (high - low))"
    and "low + drop_bit 1 (wrapUint32 (high - low)) \<le> high" by simp_all
qed

lemma wrapInt32_id: "- (2 ^ 31) \<le> k \<Longrightarrow> k < 2 ^ 31 \<Longrightarrow> wrapInt32 k = k"
  by (simp add: wrapInt32_def)

lemma not_negative_and_positive: "isNegative c \<Longrightarrow> \<not> isPositive c"
  by (cases c) (simp_all add: isNegative_def isPositive_def less_number_def)

lemma isZero_iff: "c \<noteq> NaN \<Longrightarrow> isZero c \<longleftrightarrow> \<not> isNegative c \<and> \<not> isPositive c"
  by (cases c) (auto simp: isNegative_def isPositive_def less_number_def isZero_def)

lemma isZero_not_NaN: "isZero c \<Longrightarrow> c \<noteq> NaN"
  by (auto simp: isZero_def)

lemma sign_le_iff:
  assumes "sign a \<le> sign b"
  shows "(isNegative b \<longrightarrow> isNegative a) \<and> (isPositive a \<longrightarrow> isPositive b)"
  using assms not_negative_and_positive[of a] not_negative_and_positive[of b]
  by (auto simp: sign_def split: if_splits)

lemma comparisons_nth:
  "i < length haystack \<Longrightarrow>
   comparisons comparator needle haystack ! i = cmpAt comparator haystack needle (int i)"
  by (simp add: comparisons_def)

lemma comparisons_nth_int:
  assumes "0 \<le> i" "i < int (length haystack)"
  shows "comparisons comparator needle haystack ! nat i = cmpAt comparator haystack needle i"
proof -
  have "nat i < length haystack" using assms by linarith
  then show ?thesis using assms(1) by (simp add: comparisons_nth)
qed

lemma length_comparisons [simp]:
  "length (comparisons comparator needle haystack) = length haystack"
  by (simp add: comparisons_def)

lemma orderedFor_monotone:
  assumes "orderedFor comparator needle haystack"
    and "0 \<le> i" "i \<le> j" "j < int (length haystack)"
  shows "(isNegative (cmpAt comparator haystack needle j) \<longrightarrow>
            isNegative (cmpAt comparator haystack needle i)) \<and>
         (isPositive (cmpAt comparator haystack needle i) \<longrightarrow>
            isPositive (cmpAt comparator haystack needle j))"
proof -
  let ?cs = "comparisons comparator needle haystack"
  have ij: "nat i \<le> nat j" "nat j < length (map sign ?cs)"
    using assms(2-4) by simp_all
  have "sorted (map sign ?cs)"
    using assms(1) by (simp add: orderedFor_def)
  then have "map sign ?cs ! nat i \<le> map sign ?cs ! nat j"
    using ij by (rule sorted_nth_mono)
  then have "sign (?cs ! nat i) \<le> sign (?cs ! nat j)"
    using ij by simp
  then have "sign (cmpAt comparator haystack needle i) \<le> sign (cmpAt comparator haystack needle j)"
    using assms(2-4) by (simp add: comparisons_nth)
  then show ?thesis by (rule sign_le_iff)
qed

lemma orderedFor_not_NaN:
  assumes "orderedFor comparator needle haystack" "0 \<le> i" "i < int (length haystack)"
  shows "cmpAt comparator haystack needle i \<noteq> NaN"
proof -
  have "comparisons comparator needle haystack ! nat i \<in> set (comparisons comparator needle haystack)"
    using assms(2,3) by (intro nth_mem) simp
  then have "cmpAt comparator haystack needle i \<in> set (comparisons comparator needle haystack)"
    using assms(2,3) by (simp add: comparisons_nth)
  then show ?thesis
    using assms(1) by (auto simp: orderedFor_def)
qed

lemma found_iff:
  "found comparator needle haystack \<longleftrightarrow>
   (\<exists>i. 0 \<le> i \<and> i < int (length haystack) \<and> isZero (cmpAt comparator haystack needle i))"
proof
  assume "found comparator needle haystack"
  then obtain k where k: "k < length haystack" "isZero (comparisons comparator needle haystack ! k)"
    by (auto simp: found_def list_ex_iff in_set_conv_nth)
  then show "\<exists>i. 0 \<le> i \<and> i < int (length haystack) \<and> isZero (cmpAt comparator haystack needle i)"
    by (intro exI[of _ "int k"]) (simp add: comparisons_nth)
next
  assume "\<exists>i. 0 \<le> i \<and> i < int (length haystack) \<and> isZero (cmpAt comparator haystack needle i)"
  then obtain i where i: "0 \<le> i" "i < int (length haystack)" "isZero (cmpAt comparator haystack needle i)"
    by blast
  then have "isZero (comparisons comparator needle haystack ! nat i)" "nat i < length haystack"
    by (simp_all add: comparisons_nth)
  then show "found comparator needle haystack"
    unfolding found_def list_ex_iff by (metis length_comparisons nth_mem)
qed

lemma insertionPoint_iff:
  "insertionPoint comparator needle haystack p \<longleftrightarrow>
   p \<le> length haystack \<and>
   (\<forall>i. 0 \<le> i \<and> i < int p \<longrightarrow> isNegative (cmpAt comparator haystack needle i)) \<and>
   (\<forall>i. int p \<le> i \<and> i < int (length haystack) \<longrightarrow> isPositive (cmpAt comparator haystack needle i))"
  (is "?L \<longleftrightarrow> ?R")
proof
  let ?cs = "comparisons comparator needle haystack"
  assume L: ?L
  then have p: "p \<le> length haystack"
    and t: "\<forall>k < p. isNegative (?cs ! k)"
    and d: "\<forall>k. k < length haystack - p \<longrightarrow> isPositive (?cs ! (p + k))"
    by (auto simp: insertionPoint_def list_all_length)
  have "isNegative (cmpAt comparator haystack needle i)" if "0 \<le> i \<and> i < int p" for i
  proof -
    have "nat i < p" using that by linarith
    then have "isNegative (?cs ! nat i)" using t by blast
    moreover have "0 \<le> i" "i < int (length haystack)" using that p by linarith+
    ultimately show ?thesis by (simp add: comparisons_nth_int)
  qed
  moreover have "isPositive (cmpAt comparator haystack needle i)"
    if "int p \<le> i \<and> i < int (length haystack)" for i
  proof -
    have "nat i - p < length haystack - p" "p + (nat i - p) = nat i" using that by linarith+
    then have "isPositive (?cs ! nat i)" using d by metis
    moreover have "0 \<le> i" "i < int (length haystack)" using that by linarith+
    ultimately show ?thesis by (simp add: comparisons_nth_int)
  qed
  ultimately show ?R using p by blast
next
  let ?cs = "comparisons comparator needle haystack"
  assume R: ?R
  have "isNegative (?cs ! k)" if "k < p" for k
    using R that by (simp add: comparisons_nth)
  moreover have "isPositive (?cs ! (p + k))" if "k < length haystack - p" for k
    using R that by (simp add: comparisons_nth)
  ultimately show ?L
    using R by (simp add: insertionPoint_def list_all_length)
qed

lemma binarySearch_loop_result:
  assumes "0 \<le> low" "high < int (length haystack)" "low \<le> high + 1"
    and "int (length haystack) < 2 ^ 31"
    and "\<forall>i. 0 \<le> i \<and> i < low \<longrightarrow> isNegative (cmpAt comparator haystack needle i)"
    and "\<forall>i. high < i \<and> i < int (length haystack) \<longrightarrow> isPositive (cmpAt comparator haystack needle i)"
    and "\<forall>i j. 0 \<le> i \<and> i \<le> j \<and> j < int (length haystack) \<longrightarrow>
          (isNegative (cmpAt comparator haystack needle j) \<longrightarrow> isNegative (cmpAt comparator haystack needle i)) \<and>
          (isPositive (cmpAt comparator haystack needle i) \<longrightarrow> isPositive (cmpAt comparator haystack needle j))"
  shows "let r = fst (binarySearch_loop haystack needle comparator low high calls) in
     (0 \<le> r \<and> r < int (length haystack) \<and>
        \<not> isNegative (cmpAt comparator haystack needle r) \<and> \<not> isPositive (cmpAt comparator haystack needle r)) \<or>
     (\<exists>p. r = NOT p \<and> 0 \<le> p \<and> p \<le> int (length haystack) \<and>
        (\<forall>i. 0 \<le> i \<and> i < p \<longrightarrow> isNegative (cmpAt comparator haystack needle i)) \<and>
        (\<forall>i. p \<le> i \<and> i < int (length haystack) \<longrightarrow> isPositive (cmpAt comparator haystack needle i)))"
  using assms
proof (induction haystack needle comparator low high calls rule: binarySearch_loop.induct)
  case (1 haystack needle comparator low high calls)
  let ?C = "cmpAt comparator haystack needle"
  show ?case
  proof (cases "low \<le> high")
    case False
    then have eq: "low = high + 1" using "1.prems"(3) by simp
    have w: "wrapInt32 low = low"
      using "1.prems"(1,2,4) eq by (intro wrapInt32_id) simp_all
    have "fst (binarySearch_loop haystack needle comparator low high calls) = NOT low"
      using False w by (subst binarySearch_loop.simps) simp
    moreover have "0 \<le> low" "low \<le> int (length haystack)"
      using "1.prems"(1,2) eq by simp_all
    moreover have "\<forall>i. low \<le> i \<and> i < int (length haystack) \<longrightarrow> isPositive (?C i)"
      using "1.prems"(6) eq by simp
    ultimately show ?thesis
      using "1.prems"(5) by (auto simp: Let_def)
  next
    case True
    define mid where "mid = low + drop_bit 1 (wrapUint32 (high - low))"
    have mb: "low \<le> mid" "mid \<le> high"
      using mid_bounds[OF True] by (simp_all add: mid_def)
    have cm: "comparator (element haystack mid) needle mid haystack = ?C mid"
      by (simp add: cmpAt_def)
    consider (neg) "isNegative (?C mid)"
      | (pos) "\<not> isNegative (?C mid)" "isPositive (?C mid)"
      | (zero) "\<not> isNegative (?C mid)" "\<not> isPositive (?C mid)"
      by blast
    then show ?thesis
    proof cases
      case neg
      have step: "binarySearch_loop haystack needle comparator low high calls =
          binarySearch_loop haystack needle comparator (mid + 1) high (calls @ [mid])"
        using True neg unfolding mid_def cmpAt_def isNegative_def
        by (subst binarySearch_loop.simps) (simp add: Let_def)
      have below: "\<forall>i. 0 \<le> i \<and> i < mid + 1 \<longrightarrow> isNegative (?C i)"
      proof (intro allI impI)
        fix i assume "0 \<le> i \<and> i < mid + 1"
        then have "0 \<le> i \<and> i \<le> mid \<and> mid < int (length haystack)"
          using mb "1.prems"(2) by simp
        then show "isNegative (?C i)"
          using "1.prems"(7) neg by blast
      qed
      have "let r = fst (binarySearch_loop haystack needle comparator (mid + 1) high (calls @ [mid])) in
        (0 \<le> r \<and> r < int (length haystack) \<and> \<not> isNegative (?C r) \<and> \<not> isPositive (?C r)) \<or>
        (\<exists>p. r = NOT p \<and> 0 \<le> p \<and> p \<le> int (length haystack) \<and>
          (\<forall>i. 0 \<le> i \<and> i < p \<longrightarrow> isNegative (?C i)) \<and>
          (\<forall>i. p \<le> i \<and> i < int (length haystack) \<longrightarrow> isPositive (?C i)))"
      proof (rule "1.IH"(1)[OF True mid_def refl])
        show "less_number (comparator (element haystack mid) needle mid haystack) (Fin 0)"
          using neg by (simp add: cm isNegative_def)
        show "0 \<le> mid + 1" using mb "1.prems"(1) by simp
        show "high < int (length haystack)" by (rule "1.prems"(2))
        show "mid + 1 \<le> high + 1" using mb by simp
        show "int (length haystack) < 2 ^ 31" by (rule "1.prems"(4))
        show "\<forall>i. 0 \<le> i \<and> i < mid + 1 \<longrightarrow> isNegative (?C i)" by (rule below)
        show "\<forall>i. high < i \<and> i < int (length haystack) \<longrightarrow> isPositive (?C i)" by (rule "1.prems"(6))
        show "\<forall>i j. 0 \<le> i \<and> i \<le> j \<and> j < int (length haystack) \<longrightarrow>
          (isNegative (?C j) \<longrightarrow> isNegative (?C i)) \<and> (isPositive (?C i) \<longrightarrow> isPositive (?C j))"
          by (rule "1.prems"(7))
      qed
      then show ?thesis by (simp only: step)
    next
      case pos
      have step: "binarySearch_loop haystack needle comparator low high calls =
          binarySearch_loop haystack needle comparator low (mid - 1) (calls @ [mid])"
        using True pos unfolding mid_def cmpAt_def isNegative_def isPositive_def
        by (subst binarySearch_loop.simps) (simp add: Let_def)
      have above: "\<forall>i. mid - 1 < i \<and> i < int (length haystack) \<longrightarrow> isPositive (?C i)"
      proof (intro allI impI)
        fix i assume "mid - 1 < i \<and> i < int (length haystack)"
        then have "0 \<le> mid \<and> mid \<le> i \<and> i < int (length haystack)"
          using mb "1.prems"(1) by simp
        then show "isPositive (?C i)"
          using "1.prems"(7) pos by blast
      qed
      have "let r = fst (binarySearch_loop haystack needle comparator low (mid - 1) (calls @ [mid])) in
        (0 \<le> r \<and> r < int (length haystack) \<and> \<not> isNegative (?C r) \<and> \<not> isPositive (?C r)) \<or>
        (\<exists>p. r = NOT p \<and> 0 \<le> p \<and> p \<le> int (length haystack) \<and>
          (\<forall>i. 0 \<le> i \<and> i < p \<longrightarrow> isNegative (?C i)) \<and>
          (\<forall>i. p \<le> i \<and> i < int (length haystack) \<longrightarrow> isPositive (?C i)))"
      proof (rule "1.IH"(2)[OF True mid_def refl])
        show "\<not> less_number (comparator (element haystack mid) needle mid haystack) (Fin 0)"
          using pos by (simp add: cm isNegative_def)
        show "less_number (Fin 0) (comparator (element haystack mid) needle mid haystack)"
          using pos by (simp add: cm isPositive_def)
        show "0 \<le> low" by (rule "1.prems"(1))
        show "mid - 1 < int (length haystack)" using mb "1.prems"(2) by simp
        show "low \<le> mid - 1 + 1" using mb by simp
        show "int (length haystack) < 2 ^ 31" by (rule "1.prems"(4))
        show "\<forall>i. 0 \<le> i \<and> i < low \<longrightarrow> isNegative (?C i)" by (rule "1.prems"(5))
        show "\<forall>i. mid - 1 < i \<and> i < int (length haystack) \<longrightarrow> isPositive (?C i)" by (rule above)
        show "\<forall>i j. 0 \<le> i \<and> i \<le> j \<and> j < int (length haystack) \<longrightarrow>
          (isNegative (?C j) \<longrightarrow> isNegative (?C i)) \<and> (isPositive (?C i) \<longrightarrow> isPositive (?C j))"
          by (rule "1.prems"(7))
      qed
      then show ?thesis by (simp only: step)
    next
      case zero
      have step: "binarySearch_loop haystack needle comparator low high calls = (mid, calls @ [mid])"
        using True zero unfolding mid_def cmpAt_def isNegative_def isPositive_def
        by (subst binarySearch_loop.simps) (simp add: Let_def)
      have "0 \<le> mid" "mid < int (length haystack)"
        using mb "1.prems"(1,2) by simp_all
      then show ?thesis
        using zero by (simp add: step)
    qed
  qed
qed

lemma binarySearch_omitted:
  "binarySearch haystack needle comparator None None =
     Inr (fst (binarySearch_loop haystack needle comparator 0 (int (length haystack) - 1) []))"
  by (simp add: binarySearch_def binarySearch_run_def lowerBound_def upperBound_def)

lemma binarySearch_ordered_result:
  assumes ord: "orderedFor comparator needle haystack"
    and len: "int (length haystack) < 2 ^ 31"
  defines "r \<equiv> fst (binarySearch_loop haystack needle comparator 0 (int (length haystack) - 1) [])"
  shows "(0 \<le> r \<and> r < int (length haystack) \<and> isZero (cmpAt comparator haystack needle r)) \<or>
     (\<exists>p. r = NOT (int p) \<and> insertionPoint comparator needle haystack p)"
proof -
  let ?C = "cmpAt comparator haystack needle"
  have "let r = fst (binarySearch_loop haystack needle comparator 0 (int (length haystack) - 1) []) in
     (0 \<le> r \<and> r < int (length haystack) \<and> \<not> isNegative (?C r) \<and> \<not> isPositive (?C r)) \<or>
     (\<exists>p. r = NOT p \<and> 0 \<le> p \<and> p \<le> int (length haystack) \<and>
        (\<forall>i. 0 \<le> i \<and> i < p \<longrightarrow> isNegative (?C i)) \<and>
        (\<forall>i. p \<le> i \<and> i < int (length haystack) \<longrightarrow> isPositive (?C i)))"
  proof (rule binarySearch_loop_result)
    show "(0::int) \<le> 0" by simp
    show "int (length haystack) - 1 < int (length haystack)" by simp
    show "0 \<le> int (length haystack) - 1 + 1" by simp
    show "int (length haystack) < 2 ^ 31" by (rule len)
    show "\<forall>i. 0 \<le> i \<and> i < 0 \<longrightarrow> isNegative (?C i)" by auto
    show "\<forall>i. int (length haystack) - 1 < i \<and> i < int (length haystack) \<longrightarrow> isPositive (?C i)"
      by auto
    show "\<forall>i j. 0 \<le> i \<and> i \<le> j \<and> j < int (length haystack) \<longrightarrow>
          (isNegative (?C j) \<longrightarrow> isNegative (?C i)) \<and> (isPositive (?C i) \<longrightarrow> isPositive (?C j))"
      using orderedFor_monotone[OF ord] by blast
  qed
  then consider
    (hit) "0 \<le> r" "r < int (length haystack)" "\<not> isNegative (?C r)" "\<not> isPositive (?C r)"
    | (miss) p where "r = NOT p" "0 \<le> p" "p \<le> int (length haystack)"
        "\<forall>i. 0 \<le> i \<and> i < p \<longrightarrow> isNegative (?C i)"
        "\<forall>i. p \<le> i \<and> i < int (length haystack) \<longrightarrow> isPositive (?C i)"
    unfolding r_def Let_def by blast
  then show ?thesis
  proof cases
    case hit
    have "?C r \<noteq> NaN"
      using ord hit(1,2) by (rule orderedFor_not_NaN)
    then have "isZero (?C r)"
      using hit(3,4) by (simp add: isZero_iff)
    then show ?thesis using hit(1,2) by blast
  next
    case miss
    have "insertionPoint comparator needle haystack (nat p)"
      unfolding insertionPoint_iff using miss(2-5) by simp
    moreover have "r = NOT (int (nat p))"
      using miss(1,2) by simp
    ultimately show ?thesis by blast
  qed
qed

lemma insertionPoint_unique:
  assumes "insertionPoint comparator needle haystack p"
    and "insertionPoint comparator needle haystack p'"
  shows "p = p'"
proof (rule ccontr)
  assume "p \<noteq> p'"
  then consider "p < p'" | "p' < p" by linarith
  then show False
  proof cases
    case 1
    then have "isNegative (cmpAt comparator haystack needle (int p))"
      "isPositive (cmpAt comparator haystack needle (int p))"
      using assms unfolding insertionPoint_iff by simp_all
    then show False using not_negative_and_positive by blast
  next
    case 2
    then have "isNegative (cmpAt comparator haystack needle (int p'))"
      "isPositive (cmpAt comparator haystack needle (int p'))"
      using assms unfolding insertionPoint_iff by simp_all
    then show False using not_negative_and_positive by blast
  qed
qed

lemma insertionPoint_not_found:
  assumes "insertionPoint comparator needle haystack p"
  shows "\<not> found comparator needle haystack"
proof
  assume "found comparator needle haystack"
  then obtain i where i: "0 \<le> i" "i < int (length haystack)"
    "isZero (cmpAt comparator haystack needle i)"
    unfolding found_iff by blast
  then have z: "\<not> isNegative (cmpAt comparator haystack needle i)"
    "\<not> isPositive (cmpAt comparator haystack needle i)"
    using isZero_iff[OF isZero_not_NaN] by blast+
  show False
  proof (cases "i < int p")
    case True
    then show False using assms i(1) z(1) unfolding insertionPoint_iff by blast
  next
    case False
    then show False using assms i(2) z(2) unfolding insertionPoint_iff by simp
  qed
qed

lemma binarySearch_ordered_general:
  assumes ord: "orderedFor comparator needle haystack"
    and len: "length haystack < 2 ^ 31"
  shows "\<exists>r. binarySearch haystack needle comparator None None = Inr r \<and>
     (if found comparator needle haystack
      then 0 \<le> r \<and> r < int (length haystack) \<and> isZero (cmpAt comparator haystack needle r)
      else (\<exists>!p. insertionPoint comparator needle haystack p) \<and>
           (\<forall>p. insertionPoint comparator needle haystack p \<longrightarrow> r = NOT (int p))) \<and>
     (0 \<le> r \<longleftrightarrow> found comparator needle haystack)"
proof -
  define r where "r = fst (binarySearch_loop haystack needle comparator 0 (int (length haystack) - 1) [])"
  have len': "int (length haystack) < 2 ^ 31"
    using len of_nat_less_iff[where 'a = int, of "length haystack" "2 ^ 31"] by simp
  have eq: "binarySearch haystack needle comparator None None = Inr r"
    by (simp add: binarySearch_omitted r_def)
  consider (hit) "0 \<le> r" "r < int (length haystack)" "isZero (cmpAt comparator haystack needle r)"
    | (miss) p where "r = NOT (int p)" "insertionPoint comparator needle haystack p"
    using binarySearch_ordered_result[OF ord len'] unfolding r_def by blast
  then show ?thesis
  proof cases
    case hit
    then have "found comparator needle haystack"
      unfolding found_iff by blast
    then show ?thesis using eq hit by (intro exI[of _ r]) simp
  next
    case miss
    have nf: "\<not> found comparator needle haystack"
      using miss(2) by (rule insertionPoint_not_found)
    have uniq: "\<forall>p'. insertionPoint comparator needle haystack p' \<longrightarrow> p' = p"
      using insertionPoint_unique[OF _ miss(2)] by blast
    have "r < 0" using miss(1) by (simp add: not_int_def)
    have ex1: "\<exists>!p. insertionPoint comparator needle haystack p"
      using miss(2) uniq by blast
    have all: "\<forall>p'. insertionPoint comparator needle haystack p' \<longrightarrow> r = NOT (int p')"
      using miss(1) uniq by blast
    show ?thesis
    proof (intro exI[of _ r] conjI)
      show "binarySearch haystack needle comparator None None = Inr r" by (rule eq)
      show "if found comparator needle haystack
        then 0 \<le> r \<and> r < int (length haystack) \<and> isZero (cmpAt comparator haystack needle r)
        else (\<exists>!p. insertionPoint comparator needle haystack p) \<and>
             (\<forall>p. insertionPoint comparator needle haystack p \<longrightarrow> r = NOT (int p))"
        using nf ex1 all by simp
      show "0 \<le> r \<longleftrightarrow> found comparator needle haystack"
        using nf \<open>r < 0\<close> by simp
    qed
  qed
qed

lemma binarySearch_loop_exit:
  "high < low \<Longrightarrow>
   binarySearch_loop haystack needle comparator low high calls = (NOT (wrapInt32 low), calls)"
  by (subst binarySearch_loop.simps) simp

lemma binarySearch_loop_below:
  "low \<le> high \<Longrightarrow>
   less_number (cmpAt comparator haystack needle (low + (high - low) mod 2 ^ 32 div 2)) (Fin 0) \<Longrightarrow>
   binarySearch_loop haystack needle comparator low high calls =
     binarySearch_loop haystack needle comparator (low + (high - low) mod 2 ^ 32 div 2 + 1) high
       (calls @ [low + (high - low) mod 2 ^ 32 div 2])"
  by (subst binarySearch_loop.simps) (simp add: Let_def cmpAt_def wrapUint32_def drop_bit_eq_div)

lemma binarySearch_loop_above:
  "low \<le> high \<Longrightarrow>
   \<not> less_number (cmpAt comparator haystack needle (low + (high - low) mod 2 ^ 32 div 2)) (Fin 0) \<Longrightarrow>
   less_number (Fin 0) (cmpAt comparator haystack needle (low + (high - low) mod 2 ^ 32 div 2)) \<Longrightarrow>
   binarySearch_loop haystack needle comparator low high calls =
     binarySearch_loop haystack needle comparator low (low + (high - low) mod 2 ^ 32 div 2 - 1)
       (calls @ [low + (high - low) mod 2 ^ 32 div 2])"
  by (subst binarySearch_loop.simps) (simp add: Let_def cmpAt_def wrapUint32_def drop_bit_eq_div)

lemma binarySearch_loop_hit:
  "low \<le> high \<Longrightarrow>
   \<not> less_number (cmpAt comparator haystack needle (low + (high - low) mod 2 ^ 32 div 2)) (Fin 0) \<Longrightarrow>
   \<not> less_number (Fin 0) (cmpAt comparator haystack needle (low + (high - low) mod 2 ^ 32 div 2)) \<Longrightarrow>
   binarySearch_loop haystack needle comparator low high calls =
     (low + (high - low) mod 2 ^ 32 div 2, calls @ [low + (high - low) mod 2 ^ 32 div 2])"
  by (subst binarySearch_loop.simps) (simp add: Let_def cmpAt_def wrapUint32_def drop_bit_eq_div)

lemmas binarySearch_loop_steps =
  binarySearch_loop_exit binarySearch_loop_below binarySearch_loop_above binarySearch_loop_hit

lemma binarySearch_loop_calls:
  assumes "0 \<le> low" "high < int (length haystack)"
    and "set calls \<subseteq> {0..<int (length haystack)}"
  shows "set (snd (binarySearch_loop haystack needle comparator low high calls))
           \<subseteq> {0..<int (length haystack)}"
  using assms
proof (induction haystack needle comparator low high calls rule: binarySearch_loop.induct)
  case (1 haystack needle comparator low high calls)
  show ?case
  proof (cases "low \<le> high")
    case False
    then show ?thesis
      using "1.prems"(3) by (simp add: binarySearch_loop_exit)
  next
    case True
    define mid where "mid = low + drop_bit 1 (wrapUint32 (high - low))"
    have mb: "low \<le> mid" "mid \<le> high"
      using mid_bounds[OF True] by (simp_all add: mid_def)
    have calls': "set (calls @ [mid]) \<subseteq> {0..<int (length haystack)}"
      using "1.prems" mb by simp
    let ?cmp = "comparator (element haystack mid) needle mid haystack"
    consider (neg) "less_number ?cmp (Fin 0)"
      | (pos) "\<not> less_number ?cmp (Fin 0)" "less_number (Fin 0) ?cmp"
      | (zero) "\<not> less_number ?cmp (Fin 0)" "\<not> less_number (Fin 0) ?cmp"
      by blast
    then show ?thesis
    proof cases
      case neg
      have step: "binarySearch_loop haystack needle comparator low high calls =
          binarySearch_loop haystack needle comparator (mid + 1) high (calls @ [mid])"
        using True neg unfolding mid_def
        by (subst binarySearch_loop.simps) (simp add: Let_def)
      have "set (snd (binarySearch_loop haystack needle comparator (mid + 1) high (calls @ [mid])))
          \<subseteq> {0..<int (length haystack)}"
      proof (rule "1.IH"(1)[OF True mid_def refl neg])
        show "0 \<le> mid + 1" using mb "1.prems"(1) by simp
        show "high < int (length haystack)" by (rule "1.prems"(2))
        show "set (calls @ [mid]) \<subseteq> {0..<int (length haystack)}" by (rule calls')
      qed
      then show ?thesis by (simp only: step)
    next
      case pos
      have step: "binarySearch_loop haystack needle comparator low high calls =
          binarySearch_loop haystack needle comparator low (mid - 1) (calls @ [mid])"
        using True pos unfolding mid_def
        by (subst binarySearch_loop.simps) (simp add: Let_def)
      have "set (snd (binarySearch_loop haystack needle comparator low (mid - 1) (calls @ [mid])))
          \<subseteq> {0..<int (length haystack)}"
      proof (rule "1.IH"(2)[OF True mid_def refl pos])
        show "0 \<le> low" by (rule "1.prems"(1))
        show "mid - 1 < int (length haystack)" using mb "1.prems"(2) by simp
        show "set (calls @ [mid]) \<subseteq> {0..<int (length haystack)}" by (rule calls')
      qed
      then show ?thesis by (simp only: step)
    next
      case zero
      have step: "binarySearch_loop haystack needle comparator low high calls = (mid, calls @ [mid])"
        using True zero unfolding mid_def
        by (subst binarySearch_loop.simps) (simp add: Let_def)
      show ?thesis using calls' by (simp only: step snd_conv)
    qed
  qed
qed

lemma ToInt32_of_int:
  "- (2 ^ 31) \<le> k \<Longrightarrow> k < 2 ^ 31 \<Longrightarrow> ToInt32 (Fin (of_int k)) = k"
  by (simp add: trunc_def wrapInt32_id)

lemma binarySearch_throws_iff:
  "isl (binarySearch haystack needle comparator (Some low) (Some high)) \<longleftrightarrow>
   \<not> (0 \<le> ToInt32 low \<and> ToInt32 low \<le> ToInt32 high \<and> ToInt32 high < int (length haystack))"
  by (auto simp: binarySearch_def binarySearch_run_def lowerBound_def upperBound_def)

lemma binarySearch_error_is_RangeError:
  "binarySearch haystack needle comparator low high = Inl e \<Longrightarrow> \<exists>msg. e = RangeError msg"
  by (auto simp: binarySearch_def binarySearch_run_def lowerBound_def upperBound_def
      split: option.splits if_splits sum.splits)

lemma trunc_zero: "trunc 0 = 0"
  by (simp add: trunc_def)

lemma trunc_numeral: "trunc (numeral n) = numeral n"
  by (simp add: trunc_def)

lemma trunc_minus_half: "trunc (- (1 / 2)) = 0"
proof -
  have "\<lceil>- (1 / 2) :: real\<rceil> = 0"
    by (rule ceiling_unique) simp_all
  then show ?thesis by (simp add: trunc_def)
qed

lemma trunc_one: "trunc 1 = 1"
  by (simp add: trunc_def)

lemma subtract_Fin:
  "subtract (Fin x) (Fin y) = (if x = y then Fin 0 else Fin (x - y))"
  by (simp add: subtract_def isInfinite_def)

lemma binarySearch_example_found:
  "binarySearch [Fin 1, Fin 3, Fin 5, Fin 7] (Fin 5) difference None None = Inr 2"
  by (simp add: binarySearch_omitted binarySearch_loop_steps cmpAt_def wrapInt32_def
      element_def difference_def subtract_Fin less_number_def)

lemma binarySearch_example_missing:
  "binarySearch [Fin 1, Fin 3, Fin 5, Fin 7] (Fin 4) difference None None = Inr (NOT 2)"
  by (simp add: binarySearch_omitted binarySearch_loop_steps cmpAt_def wrapInt32_def
      element_def difference_def subtract_Fin less_number_def)

lemma binarySearch_loop_all_negative:
  assumes "low \<le> high + 1"
    and "\<forall>i. low \<le> i \<and> i \<le> high \<longrightarrow> isNegative (cmpAt comparator haystack needle i)"
  shows "fst (binarySearch_loop haystack needle comparator low high calls) =
           NOT (wrapInt32 (high + 1))"
  using assms
proof (induction haystack needle comparator low high calls rule: binarySearch_loop.induct)
  case (1 haystack needle comparator low high calls)
  show ?case
  proof (cases "low \<le> high")
    case False
    then have "low = high + 1" using "1.prems"(1) by simp
    then show ?thesis using False by (simp add: binarySearch_loop_exit)
  next
    case True
    define mid where "mid = low + drop_bit 1 (wrapUint32 (high - low))"
    have mb: "low \<le> mid" "mid \<le> high"
      using mid_bounds[OF True] by (simp_all add: mid_def)
    have neg: "less_number (comparator (element haystack mid) needle mid haystack) (Fin 0)"
      using "1.prems"(2) mb by (simp add: isNegative_def cmpAt_def)
    have step: "binarySearch_loop haystack needle comparator low high calls =
        binarySearch_loop haystack needle comparator (mid + 1) high (calls @ [mid])"
      using True neg unfolding mid_def
      by (subst binarySearch_loop.simps) (simp add: Let_def)
    have "fst (binarySearch_loop haystack needle comparator (mid + 1) high (calls @ [mid])) =
        NOT (wrapInt32 (high + 1))"
    proof (rule "1.IH"(1)[OF True mid_def refl neg])
      show "mid + 1 \<le> high + 1" using mb by simp
      show "\<forall>i. mid + 1 \<le> i \<and> i \<le> high \<longrightarrow> isNegative (cmpAt comparator haystack needle i)"
        using "1.prems"(2) mb by simp
    qed
    then show ?thesis by (simp only: step)
  qed
qed

lemma comparisons_constant:
  "comparisons (\<lambda>a b i h. c) needle (replicate n x) = replicate n c"
  by (simp add: comparisons_def cmpAt_def map_replicate_const)

lemma binarySearch_constant_negative:
  "binarySearch (replicate n x) needle (\<lambda>a b i h. Fin (- 1)) None None =
     Inr (NOT (wrapInt32 (int n)))"
proof -
  have "fst (binarySearch_loop (replicate n x) needle (\<lambda>a b i h. Fin (- 1)) 0
          (int (length (replicate n x)) - 1) []) =
        NOT (wrapInt32 (int (length (replicate n x)) - 1 + 1))"
    by (rule binarySearch_loop_all_negative)
      (simp_all add: isNegative_def cmpAt_def less_number_def)
  then show ?thesis
    by (simp add: binarySearch_omitted)
qed

lemma orderedFor_constant_negative:
  "orderedFor (\<lambda>a b i h. Fin (- 1)) needle (replicate n x)"
  by (simp add: orderedFor_def comparisons_constant)

lemma found_constant_negative:
  "\<not> found (\<lambda>a b i h. Fin (- 1)) needle (replicate n x)"
  by (simp add: found_def comparisons_constant list_ex_iff isZero_def)

lemma insertionPoint_constant_negative:
  "insertionPoint (\<lambda>a b i h. Fin (- 1)) needle (replicate n x) n"
  by (simp add: insertionPoint_def comparisons_constant list_all_iff isNegative_def
      less_number_def)

text \<open>
  Claim C2, as stated, fails on a long array: \<open>~\<close> works on 32-bit integers. Take an
  array of \<open>2^31 + 5\<close> elements and a comparator that answers \<open>-1\<close> for each of them.
  The array is ordered for the comparator, no element compares \<open>== 0\<close>, and the needle
  can be inserted at the end, at \<open>2^31 + 5\<close>; yet the result is \<open>2147483642\<close>, which
  is non-negative and is not the complement of the insertion point.
\<close>

theorem binarySearch_sorted_counterexample:
  "orderedFor (\<lambda>a b i h. Fin (- 1)) () (replicate 2147483653 ()) \<and>
   \<not> found (\<lambda>a b i h. Fin (- 1)) () (replicate 2147483653 ()) \<and>
   insertionPoint (\<lambda>a b i h. Fin (- 1)) () (replicate 2147483653 ()) 2147483653 \<and>
   binarySearch (replicate 2147483653 ()) () (\<lambda>a b i h. Fin (- 1)) None None = Inr 2147483642 \<and>
   (0 :: int) \<le> 2147483642 \<and> (2147483642 :: int) \<noteq> NOT 2147483653"
proof -
  have "binarySearch (replicate 2147483653 ()) () (\<lambda>a b i h. Fin (- 1)) None None =
      Inr 2147483642"
    by (simp only: binarySearch_constant_negative) (simp add: wrapInt32_def not_int_def)
  moreover have "(2147483642 :: int) \<noteq> NOT 2147483653"
    by (simp add: not_int_def)
  ultimately show ?thesis
    using orderedFor_constant_negative[of "()" 2147483653 "()"]
      found_constant_negative[of "()" 2147483653 "()"]
      insertionPoint_constant_negative[of "()" 2147483653 "()"]
    by simp
qed

text \<open>
  Claim C2, amended. On a sequence of fewer than \<open>2^31\<close> elements that is ordered for
  the three-way comparator and the needle, \<open>binarySearch\<close> with the bounds omitted
  returns a number \<open>r\<close> without an error. When some element compares \<open>== 0\<close> with the
  needle, \<open>r\<close> is an index of the sequence whose element compares \<open>== 0\<close>. Otherwise
  there is exactly one position at which the needle can be inserted, and \<open>r\<close> is its
  bitwise complement. So \<open>r\<close> is non-negative exactly when the needle is found. In
  particular \<open>binarySearch([1,3,5,7], 5, (a,b)=>a-b)\<close> is \<open>2\<close> and
  \<open>binarySearch([1,3,5,7], 4, (a,b)=>a-b)\<close> is \<open>~2\<close>.
\<close>

theorem binarySearch_sorted:
  assumes "orderedFor comparator needle haystack"
    and "length haystack < 2 ^ 31"
  shows "(\<exists>r. binarySearch haystack needle comparator None None = Inr r \<and>
     (if found comparator needle haystack
      then 0 \<le> r \<and> r < int (length haystack) \<and> isZero (cmpAt comparator haystack needle r)
      else (\<exists>!p. insertionPoint comparator needle haystack p) \<and>
           (\<forall>p. insertionPoint comparator needle haystack p \<longrightarrow> r = NOT (int p))) \<and>
     (0 \<le> r \<longleftrightarrow> found comparator needle haystack)) \<and>
    binarySearch [Fin 1, Fin 3, Fin 5, Fin 7] (Fin 5) difference None None = Inr 2 \<and>
    binarySearch [Fin 1, Fin 3, Fin 5, Fin 7] (Fin 4) difference None None = Inr (NOT 2)"
  using binarySearch_ordered_general[OF assms] binarySearch_example_found
    binarySearch_example_missing
  by blast

theorem binarySearch_sorted_witness:
  "orderedFor difference (Fin 4) [Fin 1, Fin 3, Fin 5, Fin 7] \<and>
   length [Fin 1, Fin 3, Fin 5, Fin 7] < 2 ^ 31 \<and>
   \<not> found difference (Fin 4) [Fin 1, Fin 3, Fin 5, Fin 7] \<and>
   insertionPoint difference (Fin 4) [Fin 1, Fin 3, Fin 5, Fin 7] 2 \<and>
   binarySearch [Fin 1, Fin 3, Fin 5, Fin 7] (Fin 4) difference None None = Inr (NOT (int 2))"
proof -
  have cs: "comparisons difference (Fin 4) [Fin 1, Fin 3, Fin 5, Fin 7] =
      [Fin (- 3), Fin (- 1), Fin 1, Fin 3]"
    by (simp add: comparisons_def cmpAt_def element_def difference_def subtract_Fin upt_rec)
  have ord: "orderedFor difference (Fin 4) [Fin 1, Fin 3, Fin 5, Fin 7]"
    by (simp add: orderedFor_def cs sign_def isNegative_def isPositive_def less_number_def)
  have len: "length [Fin 1, Fin 3, Fin 5, Fin 7] < 2 ^ 31"
    by simp
  have nf: "\<not> found difference (Fin 4) [Fin 1, Fin 3, Fin 5, Fin 7]"
    by (simp add: found_def cs isZero_def)
  have ins: "insertionPoint difference (Fin 4) [Fin 1, Fin 3, Fin 5, Fin 7] 2"
    by (simp add: insertionPoint_def cs isNegative_def isPositive_def less_number_def)
  from binarySearch_sorted[OF ord len] nf ins
  have "binarySearch [Fin 1, Fin 3, Fin 5, Fin 7] (Fin 4) difference None None =
      Inr (NOT (int 2))"
    by auto
  then show ?thesis
    using ord len nf ins by blast
qed

text \<open>
  Every index at which the loop calls the comparator is an index of the array, so no read
  of the haystack is \<open>undefined\<close>.
\<close>

lemma binarySearch_calls_in_bounds:
  assumes "comparatorCalls haystack needle comparator low high = Inr calls"
  shows "set calls \<subseteq> {0..<int (length haystack)}"
proof -
  obtain low' high' where
    lo: "lowerBound haystack low = Inr low'" and
    hi: "upperBound haystack low' high = Inr high'" and
    calls: "calls = snd (binarySearch_loop haystack needle comparator low' high' [])"
    using assms
    by (auto simp: comparatorCalls_def binarySearch_run_def split: sum.splits)
  have "0 \<le> low'"
    using lo by (auto simp: lowerBound_def split: option.splits if_splits)
  moreover have "high' < int (length haystack)"
    using hi by (auto simp: upperBound_def split: option.splits if_splits)
  ultimately show ?thesis
    unfolding calls by (intro binarySearch_loop_calls) simp_all
qed

text \<open>
  Claim C10. For the empty array with both bounds omitted, \<open>binarySearch\<close> returns
  \<open>~0\<close>, which is \<open>-1\<close>; it raises no error and never calls the comparator.
\<close>

theorem binarySearch_empty:
  "binarySearch [] needle comparator None None = Inr (NOT 0) \<and> NOT 0 = (- 1 :: int) \<and>
   comparatorCalls [] needle comparator None None = Inr []"
  by (simp add: binarySearch_def comparatorCalls_def binarySearch_run_def lowerBound_def
      upperBound_def binarySearch_loop_exit wrapInt32_def)

text \<open>
  Claim C4, as stated, fails: the check is made on the bounds coerced by \<open>| 0\<close>, not on
  the bounds supplied. With \<open>low = -0.5\<close>, or with \<open>low = 2^32\<close>, on a one-element
  array the coerced lower bound is \<open>0\<close> and the search returns index \<open>0\<close>, although the
  supplied lower bound is outside \<open>[0, length)\<close>.
\<close>

theorem binarySearch_bounds_counterexample:
  "binarySearch [Fin 7] (Fin 7) difference (Some (Fin (- (1 / 2)))) (Some (Fin 0)) = Inr 0 \<and>
   \<not> (0 \<le> (- (1 / 2) :: real)) \<and>
   binarySearch [Fin 7] (Fin 7) difference (Some (Fin 4294967296)) (Some (Fin 0)) = Inr 0 \<and>
   \<not> ((4294967296 :: real) < real (length [Fin 7]))"
  by (simp add: binarySearch_def binarySearch_run_def lowerBound_def upperBound_def
      trunc_minus_half trunc_zero trunc_numeral wrapInt32_def binarySearch_loop_steps cmpAt_def
      element_def difference_def subtract_Fin less_number_def)

lemma binarySearch_throws_iff_integers:
  assumes "- (2 ^ 31) \<le> l" "l < 2 ^ 31" "- (2 ^ 31) \<le> h" "h < 2 ^ 31"
  shows "isl (binarySearch haystack needle comparator (Some (Fin (of_int l))) (Some (Fin (of_int h))))
       \<longleftrightarrow> \<not> (0 \<le> l \<and> l \<le> h \<and> h < int (length haystack))"
proof -
  have "ToInt32 (Fin (of_int l)) = l" "ToInt32 (Fin (of_int h)) = h"
    using assms by (simp_all only: ToInt32_of_int)
  then show ?thesis
    by (simp only: binarySearch_throws_iff)
qed

text \<open>
  Claim C4, amended. With both bounds supplied, \<open>binarySearch\<close> throws exactly when the
  bounds coerced to 32-bit integers by \<open>| 0\<close> violate \<open>0 \<le> low \<le> high < length\<close>, and
  what it throws is a \<open>RangeError\<close>; with both bounds omitted it throws nothing. For
  integer bounds in the 32-bit range the coercion changes nothing, and the error is
  thrown exactly when the supplied bounds violate \<open>0 \<le> low \<le> high < length\<close>.
\<close>

theorem binarySearch_range_error:
  "(isl (binarySearch haystack needle comparator (Some low) (Some high)) \<longleftrightarrow>
      \<not> (0 \<le> ToInt32 low \<and> ToInt32 low \<le> ToInt32 high \<and>
         ToInt32 high < int (length haystack))) \<and>
   (\<forall>e. binarySearch haystack needle comparator (Some low) (Some high) = Inl e \<longrightarrow>
      (\<exists>msg. e = RangeError msg)) \<and>
   \<not> isl (binarySearch haystack needle comparator None None) \<and>
   (- (2 ^ 31) \<le> l \<and> l < 2 ^ 31 \<and> - (2 ^ 31) \<le> h \<and> h < 2 ^ 31 \<longrightarrow>
      (isl (binarySearch haystack needle comparator (Some (Fin (of_int l))) (Some (Fin (of_int h))))
       \<longleftrightarrow> \<not> (0 \<le> l \<and> l \<le> h \<and> h < int (length haystack))))"
proof (intro conjI)
  show "isl (binarySearch haystack needle comparator (Some low) (Some high)) \<longleftrightarrow>
      \<not> (0 \<le> ToInt32 low \<and> ToInt32 low \<le> ToInt32 high \<and>
         ToInt32 high < int (length haystack))"
    by (rule binarySearch_throws_iff)
  show "\<forall>e. binarySearch haystack needle comparator (Some low) (Some high) = Inl e \<longrightarrow>
      (\<exists>msg. e = RangeError msg)"
    by (intro allI impI) (rule binarySearch_error_is_RangeError)
  show "\<not> isl (binarySearch haystack needle comparator None None)"
    by (simp add: binarySearch_omitted)
  show "- (2 ^ 31) \<le> l \<and> l < 2 ^ 31 \<and> - (2 ^ 31) \<le> h \<and> h < 2 ^ 31 \<longrightarrow>
      (isl (binarySearch haystack needle comparator (Some (Fin (of_int l))) (Some (Fin (of_int h))))
       \<longleftrightarrow> \<not> (0 \<le> l \<and> l \<le> h \<and> h < int (length haystack)))"
  proof (intro impI)
    assume "- (2 ^ 31) \<le> l \<and> l < 2 ^ 31 \<and> - (2 ^ 31) \<le> h \<and> h < 2 ^ 31"
    then show "isl (binarySearch haystack needle comparator (Some (Fin (of_int l)))
          (Some (Fin (of_int h))))
       \<longleftrightarrow> \<not> (0 \<le> l \<and> l \<le> h \<and> h < int (length haystack))"
      by (intro binarySearch_throws_iff_integers) simp_all
  qed
qed

theorem binarySearch_range_error_witness:
  "\<not> isl (binarySearch [Fin 1, Fin 3, Fin 5, Fin 7] (Fin 5) difference (Some (Fin 1)) (Some (Fin 2))) \<and>
   isl (binarySearch [Fin 1, Fin 3, Fin 5, Fin 7] (Fin 5) difference (Some (Fin 2)) (Some (Fin 1))) \<and>
   isl (binarySearch [Fin 1, Fin 3, Fin 5, Fin 7] (Fin 5) difference (Some (Fin 0)) (Some (Fin 4)))"
  using binarySearch_range_error[of "[Fin 1, Fin 3, Fin 5, Fin 7]" "Fin 5" difference "Fin 1" "Fin 2" 2 1]
    binarySearch_range_error[of "[Fin 1, Fin 3, Fin 5, Fin 7]" "Fin 5" difference "Fin 1" "Fin 2" 0 4]
  by (simp add: trunc_numeral trunc_one trunc_zero wrapInt32_def)

section \<open>Properties of SortedMap\<close>

lemma less_number_iff:
  "less_number a b \<longleftrightarrow>
   a \<noteq> NaN \<and> b \<noteq> NaN \<and> (rank a < rank b \<or> (rank a = rank b \<and> val a < val b))"
  by (cases a; cases b) (simp_all add: less_number_def)

lemma less_number_trans: "less_number a b \<Longrightarrow> less_number b c \<Longrightarrow> less_number a c"
  by (auto simp: less_number_iff)

lemma less_number_asym: "less_number a b \<Longrightarrow> \<not> less_number b a"
  by (auto simp: less_number_iff)

lemma less_number_not_NaN: "less_number a b \<Longrightarrow> a \<noteq> NaN \<and> b \<noteq> NaN"
  by (simp add: less_number_iff)

lemma less_number_mapKey [simp]:
  "less_number (mapKey a) b = less_number a b" "less_number a (mapKey b) = less_number a b"
  by (simp_all add: mapKey_def less_number_def)

lemma mapKey_NaN [simp]: "mapKey a = NaN \<longleftrightarrow> a = NaN"
  by (simp add: mapKey_def)

lemma mapKey_idem [simp]: "mapKey (mapKey a) = mapKey a"
  by (simp add: mapKey_def)

lemma same_key_iff:
  "a \<noteq> NaN \<Longrightarrow> b \<noteq> NaN \<Longrightarrow>
   mapKey a = mapKey b \<longleftrightarrow> \<not> less_number a b \<and> \<not> less_number b a"
  by (cases a; cases b) (auto simp: mapKey_def less_number_def)

lemma lessEq_number_mapKey [simp]:
  "lessEq_number (mapKey a) b = lessEq_number a b" "lessEq_number a (mapKey b) = lessEq_number a b"
  by (simp_all add: lessEq_number_def)

lemma lessEq_number_iff:
  "lessEq_number a b \<longleftrightarrow> less_number a b \<or> (a \<noteq> NaN \<and> b \<noteq> NaN \<and> mapKey a = mapKey b)"
  using same_key_iff[of a b] less_number_asym[of a b] less_number_not_NaN[of a b]
  by (auto simp: lessEq_number_def)

lemma isNegative_subtract: "isNegative (subtract a b) \<longleftrightarrow> less_number a b"
  by (cases a; cases b) (auto simp: subtract_def isNegative_def less_number_def isInfinite_def)

lemma isPositive_subtract: "isPositive (subtract a b) \<longleftrightarrow> less_number b a"
  by (cases a; cases b) (auto simp: subtract_def isPositive_def less_number_def isInfinite_def)

lemma isPositive_sortCompare: "isPositive (sortCompare a b) \<longleftrightarrow> less_number b a"
  using isPositive_subtract[of a b]
  by (auto simp: sortCompare_def isPositive_def less_number_def)

lemma set_insertKey: "set (insertKey x ys) = insert x (set ys)"
  by (induction ys) (auto simp: isPositive_sortCompare)

lemma insertKey_descending:
  assumes "sorted_wrt (\<lambda>a b. less_number b a) ys" "x \<noteq> NaN" "NaN \<notin> set ys"
    and "\<forall>y \<in> set ys. mapKey y \<noteq> mapKey x"
  shows "sorted_wrt (\<lambda>a b. less_number b a) (insertKey x ys)"
  using assms
proof (induction ys)
  case Nil
  then show ?case by simp
next
  case (Cons y ys)
  show ?case
  proof (cases "less_number x y")
    case True
    have "sorted_wrt (\<lambda>a b. less_number b a) (insertKey x ys)"
      using Cons by simp
    moreover have "\<forall>z \<in> set (insertKey x ys). less_number z y"
      using Cons.prems(1) True by (simp add: set_insertKey)
    ultimately show ?thesis
      using True by (simp add: isPositive_sortCompare)
  next
    case False
    have "y \<noteq> NaN" "mapKey y \<noteq> mapKey x"
      using Cons.prems(3,4) by auto
    then have yx: "less_number y x"
      using False Cons.prems(2) same_key_iff[of y x] by blast
    have "\<forall>z \<in> set ys. less_number z x"
      using Cons.prems(1) yx less_number_trans by auto
    then show ?thesis
      using False yx Cons.prems(1) by (simp add: isPositive_sortCompare)
  qed
qed

lemma insertKey_filter:
  assumes "sorted_wrt (\<lambda>a b. less_number b a) ys" "x \<noteq> NaN" "NaN \<notin> set ys"
    and "\<forall>y \<in> set ys. mapKey y \<noteq> mapKey x"
  shows "insertKey x ys = filter (less_number x) ys @ x # filter (\<lambda>y. less_number y x) ys"
  using assms
proof (induction ys)
  case Nil
  then show ?case by simp
next
  case (Cons y ys)
  show ?case
  proof (cases "less_number x y")
    case True
    then have "\<not> less_number y x" by (rule less_number_asym)
    then show ?thesis
      using True Cons by (simp add: isPositive_sortCompare)
  next
    case False
    have "y \<noteq> NaN" "mapKey y \<noteq> mapKey x"
      using Cons.prems(3,4) by auto
    then have yx: "less_number y x"
      using False Cons.prems(2) same_key_iff[of y x] by blast
    have below: "\<forall>z \<in> set ys. less_number z x"
      using Cons.prems(1) yx less_number_trans by auto
    then have "\<forall>z \<in> set ys. \<not> less_number x z"
      using less_number_asym by blast
    then have "filter (less_number x) ys = []" "filter (\<lambda>y. less_number y x) ys = ys"
      using below by (simp_all add: filter_empty_conv filter_id_conv)
    then show ?thesis
      using False yx by (simp add: isPositive_sortCompare)
  qed
qed

lemma sortArray_snoc:
  "sortArray (xs @ [x]) = rev (insertKey x (rev (sortArray xs)))"
  by (simp add: sortArray_def)

lemma sortArray_ascending:
  "sorted_wrt less_number xs \<Longrightarrow> sortArray xs = xs"
proof (induction xs rule: rev_induct)
  case Nil
  then show ?case by (simp add: sortArray_def)
next
  case (snoc x xs)
  have xs: "sortArray xs = xs" and below: "\<forall>y \<in> set xs. less_number y x"
    using snoc by (simp_all add: sorted_wrt_append)
  have "insertKey x (rev xs) = x # rev xs"
  proof (cases "rev xs")
    case Nil
    then show ?thesis by simp
  next
    case (Cons y ys)
    then have "y \<in> set xs" by (metis list.set_intros(1) set_rev)
    then have "\<not> less_number x y" using below less_number_asym by blast
    then show ?thesis using Cons by (simp add: isPositive_sortCompare)
  qed
  then show ?case
    by (simp add: sortArray_snoc xs)
qed

text \<open>
  The invariant of a map that holds no NaN key, in the form the induction takes it: the
  keys ascend strictly, none is NaN, and they are the keys of the mapping.
\<close>

lemma push_new_key:
  assumes "sorted_wrt less_number keys" "NaN \<notin> set keys" "key \<noteq> NaN"
    and "\<forall>k \<in> set keys. mapKey k \<noteq> mapKey key"
  shows "sortArray (keys @ [key]) =
           filter (\<lambda>k. less_number k key) keys @ key # filter (less_number key) keys"
    and "sorted_wrt less_number (sortArray (keys @ [key]))"
    and "set (sortArray (keys @ [key])) = insert key (set keys)"
proof -
  have desc: "sorted_wrt (\<lambda>a b. less_number b a) (rev keys)"
    using assms(1) by (simp add: sorted_wrt_rev)
  have nan: "NaN \<notin> set (rev keys)" and new: "\<forall>y \<in> set (rev keys). mapKey y \<noteq> mapKey key"
    using assms(2,4) by simp_all
  have eq: "sortArray (keys @ [key]) = rev (insertKey key (rev keys))"
    using assms(1) by (simp add: sortArray_snoc sortArray_ascending)
  show "sortArray (keys @ [key]) =
           filter (\<lambda>k. less_number k key) keys @ key # filter (less_number key) keys"
    unfolding eq insertKey_filter[OF desc assms(3) nan new]
    by (simp add: rev_filter)
  have "sorted_wrt (\<lambda>a b. less_number b a) (insertKey key (rev keys))"
    using desc assms(3) nan new by (rule insertKey_descending)
  then show "sorted_wrt less_number (sortArray (keys @ [key]))"
    unfolding eq by (simp add: sorted_wrt_rev)
  show "set (sortArray (keys @ [key])) = insert key (set keys)"
    unfolding eq by (simp add: set_insertKey)
qed

lemma has_iff: "has m key \<longleftrightarrow> mapKey key \<in> dom (map_sm m)"
  by (auto simp: has_def)

lemma new_key_differs:
  assumes "mapKey ` set keys = dom M" "mapKey key \<notin> dom M"
  shows "\<forall>k \<in> set keys. mapKey k \<noteq> mapKey key"
  using assms by (metis imageI)

lemma set_sm_keys:
  assumes "sorted_wrt less_number (sortedKeys m)" "NaN \<notin> set (sortedKeys m)"
    and "mapKey ` set (sortedKeys m) = dom (map_sm m)" and "key \<noteq> NaN"
  shows "sorted_wrt less_number (sortedKeys (set_sm m key v)) \<and>
         NaN \<notin> set (sortedKeys (set_sm m key v)) \<and>
         mapKey ` set (sortedKeys (set_sm m key v)) = dom (map_sm (set_sm m key v))"
proof (cases "has m key")
  case True
  then have "insert (mapKey key) (dom (map_sm m)) = dom (map_sm m)"
    by (auto simp: has_iff)
  then show ?thesis
    using assms True by (simp add: set_sm_def)
next
  case False
  then have new: "\<forall>k \<in> set (sortedKeys m). mapKey k \<noteq> mapKey key"
    using assms(3) by (intro new_key_differs) (simp_all add: has_iff)
  show ?thesis
    using push_new_key(2,3)[OF assms(1,2,4) new] assms(2,3,4) False
    by (simp add: set_sm_def)
qed

lemma reached_snoc: "reached (ops @ [operation]) = perform (reached ops) operation"
  by (simp add: reached_def)

lemma reached_keys:
  "has (reached ops) NaN \<or>
   (sorted_wrt less_number (sortedKeys (reached ops)) \<and> NaN \<notin> set (sortedKeys (reached ops)) \<and>
    mapKey ` set (sortedKeys (reached ops)) = dom (map_sm (reached ops)))"
proof (induction ops rule: rev_induct)
  case Nil
  then show ?case by (simp add: reached_def new_SortedMap_def)
next
  case (snoc operation ops)
  show ?case
  proof (cases operation)
    case (Set key v)
    show ?thesis
    proof (cases "has (reached ops) NaN \<or> key = NaN")
      case True
      then have "has (set_sm (reached ops) key v) NaN"
        by (auto simp: has_def set_sm_def)
      then show ?thesis by (simp add: reached_snoc Set)
    next
      case False
      then show ?thesis
        using snoc set_sm_keys[of "reached ops" key v] by (simp add: reached_snoc Set)
    qed
  next
    case (FindNearest targetKey)
    then show ?thesis using snoc by (simp add: reached_snoc)
  next
    case (Has key)
    then show ?thesis using snoc by (simp add: reached_snoc)
  next
    case Clear
    then show ?thesis by (simp add: reached_snoc clear_def)
  qed
qed

lemma ascending_distinct:
  "sorted_wrt less_number keys \<Longrightarrow> distinct (map mapKey keys)"
proof (induction keys)
  case Nil
  then show ?case by simp
next
  case (Cons k keys)
  have "mapKey k \<noteq> mapKey y" if "y \<in> set keys" for y
  proof
    assume eq: "mapKey k = mapKey y"
    have "less_number k y" using Cons.prems that by simp
    then have "less_number (mapKey k) (mapKey y)" by simp
    then show False using eq less_number_asym by auto
  qed
  then show ?case using Cons by auto
qed

lemma ascending_lessEq:
  "sorted_wrt less_number keys \<Longrightarrow> sorted_wrt lessEq_number keys"
  by (rule sorted_wrt_mono_rel[of keys less_number]) (simp_all add: lessEq_number_iff)

lemma invariant_keys:
  assumes "sorted_wrt less_number (sortedKeys m)"
    and "mapKey ` set (sortedKeys m) = dom (map_sm m)"
  shows "invariant m"
  using assms by (simp add: invariant_def ascending_distinct ascending_lessEq)

lemma invariant_reached:
  "\<not> has (reached ops) NaN \<Longrightarrow> invariant (reached ops)"
  using reached_keys[of ops] by (auto intro: invariant_keys)

lemma set_new_key:
  assumes "\<not> has (reached ops) NaN" "key \<noteq> NaN" "\<not> has (reached ops) key"
  shows "sortedKeys (set_sm (reached ops) key v) =
     filter (\<lambda>k. less_number k key) (sortedKeys (reached ops)) @
     key # filter (less_number key) (sortedKeys (reached ops))"
proof -
  have keys: "sorted_wrt less_number (sortedKeys (reached ops))"
    "NaN \<notin> set (sortedKeys (reached ops))"
    "mapKey ` set (sortedKeys (reached ops)) = dom (map_sm (reached ops))"
    using reached_keys[of ops] assms(1) by auto
  have new: "\<forall>k \<in> set (sortedKeys (reached ops)). mapKey k \<noteq> mapKey key"
    using keys(3) assms(3) by (intro new_key_differs) (simp_all add: has_iff)
  show ?thesis
    using push_new_key(1)[OF keys(1,2) assms(2) new] assms(3) by (simp add: set_sm_def)
qed

lemma set_existing_key:
  "has m key \<Longrightarrow> sortedKeys (set_sm m key v) = sortedKeys m"
  by (simp add: set_sm_def)

lemma cmpAt_difference:
  "0 \<le> i \<Longrightarrow> i < int (length xs) \<Longrightarrow> cmpAt difference xs t i = subtract (xs ! nat i) t"
  by (simp add: cmpAt_def element_def difference_def)

lemma ascending_nth:
  assumes "sorted_wrt less_number keys" "i \<le> j" "j < length keys"
  shows "i = j \<or> less_number (keys ! i) (keys ! j)"
  using assms sorted_wrt_nth_less[of less_number keys i j] by (cases "i = j") simp_all

text \<open>
  \<open>binarySearch\<close> with the comparator \<open>(a, b) => a - b\<close> on keys that ascend strictly:
  it returns an index whose key is equal to the target, or the complement of the position
  that has the keys below the target before it and the keys above the target from it on.
\<close>

lemma binarySearch_keys:
  assumes asc: "sorted_wrt less_number keys" and nan: "NaN \<notin> set keys" and t: "t \<noteq> NaN"
    and len: "length keys < 2 ^ 31"
  shows "\<exists>r. binarySearch keys t difference None None = Inr r \<and>
     ((0 \<le> r \<and> r < int (length keys) \<and> mapKey (keys ! nat r) = mapKey t) \<or>
      (\<exists>p. r = NOT (int p) \<and> p \<le> length keys \<and>
         (\<forall>i < p. less_number (keys ! i) t) \<and>
         (\<forall>i. p \<le> i \<and> i < length keys \<longrightarrow> less_number t (keys ! i))))"
proof -
  let ?C = "cmpAt difference keys t"
  define r where "r = fst (binarySearch_loop keys t difference 0 (int (length keys) - 1) [])"
  have len': "int (length keys) < 2 ^ 31"
    using len of_nat_less_iff[where 'a = int, of "length keys" "2 ^ 31"] by simp
  have neg: "isNegative (?C i) \<longleftrightarrow> less_number (keys ! nat i) t"
    and pos: "isPositive (?C i) \<longleftrightarrow> less_number t (keys ! nat i)"
    if "0 \<le> i" "i < int (length keys)" for i
    using that by (simp_all add: cmpAt_difference isNegative_subtract isPositive_subtract)
  have mono: "(isNegative (?C j) \<longrightarrow> isNegative (?C i)) \<and> (isPositive (?C i) \<longrightarrow> isPositive (?C j))"
    if "0 \<le> i \<and> i \<le> j \<and> j < int (length keys)" for i j
  proof -
    have ij: "nat i \<le> nat j" "nat j < length keys" using that by linarith+
    have b: "0 \<le> i" "i < int (length keys)" "0 \<le> j" "j < int (length keys)"
      using that by linarith+
    from ascending_nth[OF asc ij] show ?thesis
    proof
      assume "nat i = nat j"
      then have "i = j" using b by linarith
      then show ?thesis by simp
    next
      assume "less_number (keys ! nat i) (keys ! nat j)"
      then show ?thesis
        using less_number_trans neg[OF b(1,2)] neg[OF b(3,4)] pos[OF b(1,2)] pos[OF b(3,4)]
        by blast
    qed
  qed
  have "let r = fst (binarySearch_loop keys t difference 0 (int (length keys) - 1) []) in
     (0 \<le> r \<and> r < int (length keys) \<and> \<not> isNegative (?C r) \<and> \<not> isPositive (?C r)) \<or>
     (\<exists>p. r = NOT p \<and> 0 \<le> p \<and> p \<le> int (length keys) \<and>
        (\<forall>i. 0 \<le> i \<and> i < p \<longrightarrow> isNegative (?C i)) \<and>
        (\<forall>i. p \<le> i \<and> i < int (length keys) \<longrightarrow> isPositive (?C i)))"
  proof (rule binarySearch_loop_result)
    show "(0::int) \<le> 0" by simp
    show "int (length keys) - 1 < int (length keys)" by simp
    show "0 \<le> int (length keys) - 1 + 1" by simp
    show "int (length keys) < 2 ^ 31" by (rule len')
    show "\<forall>i. 0 \<le> i \<and> i < 0 \<longrightarrow> isNegative (?C i)" by auto
    show "\<forall>i. int (length keys) - 1 < i \<and> i < int (length keys) \<longrightarrow> isPositive (?C i)"
      by auto
    show "\<forall>i j. 0 \<le> i \<and> i \<le> j \<and> j < int (length keys) \<longrightarrow>
          (isNegative (?C j) \<longrightarrow> isNegative (?C i)) \<and> (isPositive (?C i) \<longrightarrow> isPositive (?C j))"
      using mono by blast
  qed
  then consider
    (hit) "0 \<le> r" "r < int (length keys)" "\<not> isNegative (?C r)" "\<not> isPositive (?C r)"
    | (miss) p where "r = NOT p" "0 \<le> p" "p \<le> int (length keys)"
        "\<forall>i. 0 \<le> i \<and> i < p \<longrightarrow> isNegative (?C i)"
        "\<forall>i. p \<le> i \<and> i < int (length keys) \<longrightarrow> isPositive (?C i)"
    unfolding r_def Let_def by blast
  then have "(0 \<le> r \<and> r < int (length keys) \<and> mapKey (keys ! nat r) = mapKey t) \<or>
      (\<exists>p. r = NOT (int p) \<and> p \<le> length keys \<and>
         (\<forall>i < p. less_number (keys ! i) t) \<and>
         (\<forall>i. p \<le> i \<and> i < length keys \<longrightarrow> less_number t (keys ! i)))"
  proof cases
    case hit
    have "nat r < length keys" using hit(1,2) by linarith
    then have "keys ! nat r \<noteq> NaN" using nan nth_mem by metis
    moreover have "\<not> less_number (keys ! nat r) t" "\<not> less_number t (keys ! nat r)"
      using hit neg[OF hit(1,2)] pos[OF hit(1,2)] by simp_all
    ultimately have "mapKey (keys ! nat r) = mapKey t"
      using t by (simp add: same_key_iff)
    then show ?thesis using hit(1,2) by blast
  next
    case miss
    have below: "less_number (keys ! i) t" if "i < nat p" for i
    proof -
      have b: "0 \<le> int i" "int i < p" "int i < int (length keys)" using that miss(3) by linarith+
      then have "isNegative (?C (int i))" using miss(4) by blast
      then show ?thesis using neg[OF b(1,3)] by simp
    qed
    have above: "less_number t (keys ! i)" if "nat p \<le> i \<and> i < length keys" for i
    proof -
      have b: "0 \<le> int i" "p \<le> int i" "int i < int (length keys)" using that miss(2) by linarith+
      then have "isPositive (?C (int i))" using miss(5) by blast
      then show ?thesis using pos[OF b(1,3)] by simp
    qed
    have "r = NOT (int (nat p))" "nat p \<le> length keys"
      using miss(1,2,3) by simp_all
    then show ?thesis using below above by blast
  qed
  moreover have "binarySearch keys t difference None None = Inr r"
    by (simp add: binarySearch_omitted r_def)
  ultimately show ?thesis by blast
qed

lemma insertionPoint_difference:
  "insertionPoint difference t keys p \<longleftrightarrow>
   p \<le> length keys \<and> (\<forall>i < p. less_number (keys ! i) t) \<and>
   (\<forall>i. p \<le> i \<and> i < length keys \<longrightarrow> less_number t (keys ! i))"
  (is "?L \<longleftrightarrow> ?R")
proof
  assume L: ?L
  then have p: "p \<le> length keys"
    and below: "\<forall>i. 0 \<le> i \<and> i < int p \<longrightarrow> isNegative (cmpAt difference keys t i)"
    and above: "\<forall>i. int p \<le> i \<and> i < int (length keys) \<longrightarrow> isPositive (cmpAt difference keys t i)"
    unfolding insertionPoint_iff by blast+
  have "less_number (keys ! i) t" if "i < p" for i
  proof -
    have "isNegative (cmpAt difference keys t (int i))" using below that by simp
    then show ?thesis using that p by (simp add: cmpAt_difference isNegative_subtract)
  qed
  moreover have "less_number t (keys ! i)" if "p \<le> i \<and> i < length keys" for i
  proof -
    have "isPositive (cmpAt difference keys t (int i))" using above that by simp
    then show ?thesis using that by (simp add: cmpAt_difference isPositive_subtract)
  qed
  ultimately show ?R using p by blast
next
  assume R: ?R
  have "isNegative (cmpAt difference keys t i)" if "0 \<le> i \<and> i < int p" for i
  proof -
    have "nat i < p" "i < int (length keys)" using that R by linarith+
    then show ?thesis using that R by (simp add: cmpAt_difference isNegative_subtract)
  qed
  moreover have "isPositive (cmpAt difference keys t i)"
    if "int p \<le> i \<and> i < int (length keys)" for i
  proof -
    have "p \<le> nat i \<and> nat i < length keys" "0 \<le> i" using that by linarith+
    then show ?thesis using that R by (simp add: cmpAt_difference isPositive_subtract)
  qed
  ultimately show ?L unfolding insertionPoint_iff using R by blast
qed

lemma findNearest_cases:
  assumes asc: "sorted_wrt less_number (sortedKeys m)" and nan: "NaN \<notin> set (sortedKeys m)"
    and t: "t \<noteq> NaN" and len: "length (sortedKeys m) < 2 ^ 31"
  shows "(\<exists>i < length (sortedKeys m). mapKey (sortedKeys m ! i) = mapKey t \<and>
            findNearest m t = Inr (map_sm m (mapKey t))) \<or>
         (\<exists>p. insertionPoint difference t (sortedKeys m) p \<and>
            findNearest m t =
              Inr (case element (sortedKeys m) (int p - 1) of
                     None \<Rightarrow> None
                   | Some key \<Rightarrow> map_sm m (mapKey key)))"
proof -
  let ?keys = "sortedKeys m"
  obtain r where r: "binarySearch ?keys t difference None None = Inr r"
    and res: "(0 \<le> r \<and> r < int (length ?keys) \<and> mapKey (?keys ! nat r) = mapKey t) \<or>
      (\<exists>p. r = NOT (int p) \<and> p \<le> length ?keys \<and>
         (\<forall>i < p. less_number (?keys ! i) t) \<and>
         (\<forall>i. p \<le> i \<and> i < length ?keys \<longrightarrow> less_number t (?keys ! i)))"
    using binarySearch_keys[OF asc nan t len] by blast
  from res show ?thesis
  proof
    assume hit: "0 \<le> r \<and> r < int (length ?keys) \<and> mapKey (?keys ! nat r) = mapKey t"
    then have i: "nat r < length ?keys" by linarith
    have "element ?keys r = Some (?keys ! nat r)"
      using hit by (simp add: element_def)
    then have "findNearest m t = Inr (map_sm m (mapKey t))"
      using r hit by (simp add: findNearest_def)
    then show ?thesis using i hit by blast
  next
    assume "\<exists>p. r = NOT (int p) \<and> p \<le> length ?keys \<and>
         (\<forall>i < p. less_number (?keys ! i) t) \<and>
         (\<forall>i. p \<le> i \<and> i < length ?keys \<longrightarrow> less_number t (?keys ! i))"
    then obtain p where rp: "r = NOT (int p)"
      and p: "insertionPoint difference t ?keys p"
      unfolding insertionPoint_difference by blast
    have "(if r < 0 then \<bar>r\<bar> - 2 else r) = int p - 1"
      using rp by (simp add: not_int_def)
    then have "findNearest m t =
        Inr (case element ?keys (int p - 1) of None \<Rightarrow> None | Some key \<Rightarrow> map_sm m (mapKey key))"
      using r by (simp add: findNearest_def)
    then show ?thesis using p by blast
  qed
qed

lemma findNearest_exact:
  assumes asc: "sorted_wrt less_number (sortedKeys m)" and nan: "NaN \<notin> set (sortedKeys m)"
    and dom: "mapKey ` set (sortedKeys m) = dom (map_sm m)"
    and t: "t \<noteq> NaN" and len: "length (sortedKeys m) < 2 ^ 31" and h: "has m t"
  shows "findNearest m t = Inr (map_sm m (mapKey t))"
proof -
  let ?keys = "sortedKeys m"
  have "mapKey t \<in> mapKey ` set ?keys" using h dom by (simp add: has_iff)
  then obtain j where j: "j < length ?keys" "mapKey (?keys ! j) = mapKey t"
    by (auto simp: in_set_conv_nth)
  have "?keys ! j \<noteq> NaN" using nan j(1) nth_mem by metis
  then have no: "\<not> less_number (?keys ! j) t" "\<not> less_number t (?keys ! j)"
    using j(2) t by (simp_all add: same_key_iff)
  have "\<not> insertionPoint difference t ?keys p" for p
    unfolding insertionPoint_difference using no j(1) by (cases "j < p") auto
  then show ?thesis
    using findNearest_cases[OF asc nan t len] by blast
qed

lemma findNearest_insertionPoint:
  assumes asc: "sorted_wrt less_number (sortedKeys m)" and nan: "NaN \<notin> set (sortedKeys m)"
    and dom: "mapKey ` set (sortedKeys m) = dom (map_sm m)"
    and t: "t \<noteq> NaN" and len: "length (sortedKeys m) < 2 ^ 31"
    and nh: "\<not> has m t" and p: "insertionPoint difference t (sortedKeys m) p"
  shows "findNearest m t =
     Inr (case element (sortedKeys m) (int p - 1) of
            None \<Rightarrow> None
          | Some key \<Rightarrow> map_sm m (mapKey key))"
proof -
  let ?keys = "sortedKeys m"
  have "mapKey (?keys ! i) \<noteq> mapKey t" if "i < length ?keys" for i
  proof -
    have "mapKey (?keys ! i) \<in> dom (map_sm m)"
      using that dom nth_mem by blast
    then show ?thesis using nh by (auto simp: has_iff)
  qed
  then obtain p' where p': "insertionPoint difference t ?keys p'"
    and f: "findNearest m t =
      Inr (case element ?keys (int p' - 1) of None \<Rightarrow> None | Some key \<Rightarrow> map_sm m (mapKey key))"
    using findNearest_cases[OF asc nan t len] by blast
  have "p' = p" using p' p by (rule insertionPoint_unique)
  then show ?thesis using f by simp
qed

lemma findNearest_greatest:
  assumes asc: "sorted_wrt less_number (sortedKeys m)" and nan: "NaN \<notin> set (sortedKeys m)"
    and dom: "mapKey ` set (sortedKeys m) = dom (map_sm m)"
    and t: "t \<noteq> NaN" and len: "length (sortedKeys m) < 2 ^ 31"
  shows "if \<exists>key \<in> dom (map_sm m). lessEq_number key t
     then \<exists>key \<in> dom (map_sm m). lessEq_number key t \<and>
            (\<forall>key' \<in> dom (map_sm m). lessEq_number key' t \<longrightarrow> lessEq_number key' key) \<and>
            findNearest m t = Inr (map_sm m key)
     else findNearest m t = Inr None"
proof -
  let ?keys = "sortedKeys m"
  have indom: "mapKey (?keys ! i) \<in> dom (map_sm m)" if "i < length ?keys" for i
    using that dom nth_mem by blast
  have notnan: "?keys ! i \<noteq> NaN" if "i < length ?keys" for i
    using that nan nth_mem by metis
  from findNearest_cases[OF asc nan t len] show ?thesis
  proof
    assume "\<exists>i < length ?keys. mapKey (?keys ! i) = mapKey t \<and>
        findNearest m t = Inr (map_sm m (mapKey t))"
    then obtain i where i: "i < length ?keys" "mapKey (?keys ! i) = mapKey t"
      and f: "findNearest m t = Inr (map_sm m (mapKey t))" by blast
    have d: "mapKey t \<in> dom (map_sm m)" using indom[OF i(1)] i(2) by simp
    have le: "lessEq_number (mapKey t) t" using t by (simp add: lessEq_number_iff)
    have "\<exists>key \<in> dom (map_sm m). lessEq_number key t \<and>
            (\<forall>key' \<in> dom (map_sm m). lessEq_number key' t \<longrightarrow> lessEq_number key' key) \<and>
            findNearest m t = Inr (map_sm m key)"
      using d le f by (intro bexI[of _ "mapKey t"]) simp_all
    moreover have "\<exists>key \<in> dom (map_sm m). lessEq_number key t" using d le by blast
    ultimately show ?thesis by simp
  next
    assume "\<exists>p. insertionPoint difference t ?keys p \<and>
        findNearest m t =
          Inr (case element ?keys (int p - 1) of None \<Rightarrow> None | Some key \<Rightarrow> map_sm m (mapKey key))"
    then obtain p where pl: "p \<le> length ?keys"
      and below: "\<forall>i < p. less_number (?keys ! i) t"
      and above: "\<forall>i. p \<le> i \<and> i < length ?keys \<longrightarrow> less_number t (?keys ! i)"
      and f: "findNearest m t =
          Inr (case element ?keys (int p - 1) of None \<Rightarrow> None | Some key \<Rightarrow> map_sm m (mapKey key))"
      unfolding insertionPoint_difference by blast
    have before: "\<exists>j < p. key' = mapKey (?keys ! j)"
      if "key' \<in> dom (map_sm m)" "lessEq_number key' t" for key'
    proof -
      have "key' \<in> mapKey ` set ?keys" using that(1) dom by simp
      then obtain j where j: "j < length ?keys" "key' = mapKey (?keys ! j)"
        by (auto simp: in_set_conv_nth)
      have "\<not> less_number t (?keys ! j)"
        using that(2) j(2) by (simp add: lessEq_number_def)
      then have "j < p" using above j(1) by (meson not_le)
      then show ?thesis using j(2) by blast
    qed
    show ?thesis
    proof (cases p)
      case 0
      have "\<not> (\<exists>key \<in> dom (map_sm m). lessEq_number key t)"
        using before 0 by auto
      moreover have "element ?keys (int p - 1) = None"
        using 0 by (simp add: element_def)
      ultimately show ?thesis using f by simp
    next
      case (Suc q)
      have q: "q < length ?keys" "q < p" using pl Suc by simp_all
      have e: "element ?keys (int p - 1) = Some (?keys ! q)"
        using q Suc by (simp add: element_def)
      have fq: "findNearest m t = Inr (map_sm m (mapKey (?keys ! q)))"
        using f e by simp
      have le: "lessEq_number (mapKey (?keys ! q)) t"
        using below q(2) by (simp add: lessEq_number_iff)
      have ub: "lessEq_number key' (mapKey (?keys ! q))"
        if kd: "key' \<in> dom (map_sm m)" and kl: "lessEq_number key' t" for key'
      proof -
        obtain j where j: "j < p" "key' = mapKey (?keys ! j)"
          using before[OF kd kl] by blast
        have jq: "j \<le> q" using j(1) Suc by simp
        from ascending_nth[OF asc jq q(1)] show ?thesis
        proof
          assume "j = q"
          then show ?thesis using j(2) notnan[OF q(1)] by (simp add: lessEq_number_iff)
        next
          assume "less_number (?keys ! j) (?keys ! q)"
          then show ?thesis using j(2) by (simp add: lessEq_number_iff)
        qed
      qed
      have "\<exists>key \<in> dom (map_sm m). lessEq_number key t \<and>
            (\<forall>key' \<in> dom (map_sm m). lessEq_number key' t \<longrightarrow> lessEq_number key' key) \<and>
            findNearest m t = Inr (map_sm m key)"
        using indom[OF q(1)] le ub fq by (intro bexI[of _ "mapKey (?keys ! q)"]) simp_all
      moreover have "\<exists>key \<in> dom (map_sm m). lessEq_number key t"
        using indom[OF q(1)] le by blast
      ultimately show ?thesis by simp
    qed
  qed
qed

lemma reached_example:
  "reached [Set (Fin 1) ''a'', Set (Fin 5) ''b'', Set (Fin 3) ''c''] =
     \<lparr>map_sm = [Fin 1 \<mapsto> ''a'', Fin 5 \<mapsto> ''b'', Fin 3 \<mapsto> ''c''],
      sortedKeys = [Fin 1, Fin 3, Fin 5]\<rparr>"
  by (simp add: reached_def new_SortedMap_def set_sm_def has_def mapKey_def sortArray_def
      isPositive_sortCompare less_number_def)

lemma findNearest_example_4:
  "findNearest (reached [Set (Fin 1) ''a'', Set (Fin 5) ''b'', Set (Fin 3) ''c'']) (Fin 4) =
     Inr (Some ''c'')"
  by (simp add: reached_example findNearest_def binarySearch_omitted binarySearch_loop_steps
      cmpAt_def wrapInt32_def element_def difference_def subtract_Fin less_number_def mapKey_def)

lemma findNearest_example_0:
  "findNearest (reached [Set (Fin 1) ''a'', Set (Fin 5) ''b'', Set (Fin 3) ''c'']) (Fin 0) =
     Inr None"
  by (simp add: reached_example findNearest_def binarySearch_omitted binarySearch_loop_steps
      cmpAt_def wrapInt32_def element_def difference_def subtract_Fin less_number_def mapKey_def)

text \<open>The map of the keys \<open>0, 1, \<dots>, n - 1\<close>, each with itself for its value.\<close>

lemma less_number_of_nat: "less_number (Fin (real i)) (Fin (real j)) \<longleftrightarrow> i < j"
  by (simp add: less_number_def)

lemma ascending_range: "sorted_wrt less_number (map (\<lambda>i. Fin (real i)) [0..<n])"
  by (simp add: sorted_wrt_map less_number_of_nat)

lemma reached_range:
  "sortedKeys (reached (map (\<lambda>i. Set (Fin (real i)) i) [0..<n])) =
     map (\<lambda>i. Fin (real i)) [0..<n] \<and>
   (\<forall>j. map_sm (reached (map (\<lambda>i. Set (Fin (real i)) i) [0..<n])) (Fin (real j)) =
      (if j < n then Some j else None))"
proof (induction n)
  case 0
  then show ?case by (simp add: reached_def new_SortedMap_def)
next
  case (Suc n)
  let ?m = "reached (map (\<lambda>i. Set (Fin (real i)) i) [0..<n])"
  have r: "reached (map (\<lambda>i. Set (Fin (real i)) i) [0..<Suc n]) = set_sm ?m (Fin (real n)) n"
    by (simp add: reached_snoc)
  have k: "mapKey (Fin (real n)) = Fin (real n)"
    by (simp add: mapKey_def)
  have nh: "\<not> has ?m (Fin (real n))"
    using Suc by (simp add: has_def k)
  have "sortArray (map (\<lambda>i. Fin (real i)) [0..<Suc n]) = map (\<lambda>i. Fin (real i)) [0..<Suc n]"
    using ascending_range by (rule sortArray_ascending)
  then have keys: "sortedKeys (set_sm ?m (Fin (real n)) n) = map (\<lambda>i. Fin (real i)) [0..<Suc n]"
    using Suc nh by (simp add: set_sm_def)
  have "map_sm (set_sm ?m (Fin (real n)) n) (Fin (real j)) = (if j < Suc n then Some j else None)"
    for j
    using Suc by (simp add: set_sm_def k)
  then show ?case using keys unfolding r by blast
qed

lemma binarySearch_range_above:
  "binarySearch (map (\<lambda>i. Fin (real i)) [0..<n]) (Fin (real n)) difference None None =
     Inr (NOT (wrapInt32 (int n)))"
proof -
  let ?keys = "map (\<lambda>i. Fin (real i)) [0..<n]"
  have "fst (binarySearch_loop ?keys (Fin (real n)) difference 0 (int (length ?keys) - 1) []) =
        NOT (wrapInt32 (int (length ?keys) - 1 + 1))"
  proof (rule binarySearch_loop_all_negative)
    show "0 \<le> int (length ?keys) - 1 + 1" by simp
    show "\<forall>i. 0 \<le> i \<and> i \<le> int (length ?keys) - 1 \<longrightarrow>
        isNegative (cmpAt difference ?keys (Fin (real n)) i)"
    proof (intro allI impI)
      fix i assume i: "0 \<le> i \<and> i \<le> int (length ?keys) - 1"
      then have "0 \<le> i" "i < int n" by simp_all
      then have b: "0 \<le> i" "i < int (length ?keys)" "nat i < n" by (simp, simp, linarith)
      show "isNegative (cmpAt difference ?keys (Fin (real n)) i)"
        using b(3) unfolding cmpAt_difference[OF b(1,2)] isNegative_subtract
        by (simp add: less_number_of_nat)
    qed
  qed
  then show ?thesis by (simp add: binarySearch_omitted)
qed

text \<open>
  Claim C1, as stated, fails in three ways. A comparison with NaN is NaN, which the loop
  of \<open>binarySearch\<close> takes for a match: with the key \<open>1\<close> stored, \<open>findNearest(NaN)\<close>
  returns its value, though no key is at most NaN; and with the key NaN stored,
  \<open>findNearest(5)\<close> returns its value, though NaN is not at most \<open>5\<close>. And \<open>~\<close> works
  on 32-bit integers: with the keys \<open>0, 1, \<dots>, 2^31 + 4\<close> stored, each with itself for
  its value, \<open>findNearest(2^31 + 5)\<close> returns the value under the key \<open>2^31 - 6\<close>,
  though the greater key \<open>2^31 + 4\<close> is at most the target.
\<close>

theorem findNearest_counterexample:
  "findNearest (reached [Set (Fin 1) ''a'']) NaN = Inr (Some ''a'') \<and>
   \<not> lessEq_number (Fin 1) NaN \<and>
   findNearest (reached [Set NaN ''n'']) (Fin 5) = Inr (Some ''n'') \<and>
   \<not> lessEq_number NaN (Fin 5) \<and>
   findNearest (reached (map (\<lambda>i. Set (Fin (real i)) i) [0..<2147483653])) (Fin 2147483653) =
     Inr (Some 2147483642) \<and>
   map_sm (reached (map (\<lambda>i. Set (Fin (real i)) i) [0..<2147483653])) (Fin 2147483652) =
     Some 2147483652 \<and>
   lessEq_number (Fin 2147483652) (Fin 2147483653) \<and>
   \<not> lessEq_number (Fin 2147483652) (Fin 2147483642)"
proof -
  let ?m = "reached (map (\<lambda>i. Set (Fin (real i)) i) [0..<2147483653])"
  have one: "findNearest (reached [Set (Fin 1) ''a'']) NaN = Inr (Some ''a'')"
    by (simp add: reached_def new_SortedMap_def set_sm_def has_def mapKey_def sortArray_def
        findNearest_def binarySearch_omitted binarySearch_loop_steps cmpAt_def element_def
        difference_def subtract_def less_number_def)
  have two: "findNearest (reached [Set NaN ''n'']) (Fin 5) = Inr (Some ''n'')"
    by (simp add: reached_def new_SortedMap_def set_sm_def has_def mapKey_def sortArray_def
        findNearest_def binarySearch_omitted binarySearch_loop_steps cmpAt_def element_def
        difference_def subtract_def less_number_def)
  have keys: "sortedKeys ?m = map (\<lambda>i. Fin (real i)) [0..<2147483653]"
    using reached_range[of 2147483653] by blast
  have at: "map_sm ?m (Fin (real j)) = (if j < 2147483653 then Some j else None)" for j
    using reached_range[of 2147483653] by blast
  have search: "binarySearch (sortedKeys ?m) (Fin 2147483653) difference None None =
      Inr 2147483642"
    unfolding keys using binarySearch_range_above[of 2147483653]
    by (simp add: wrapInt32_def not_int_def)
  have "element (sortedKeys ?m) 2147483642 = Some (Fin 2147483642)"
    unfolding keys by (simp add: element_def)
  then have three: "findNearest ?m (Fin 2147483653) = Inr (Some 2147483642)"
    using search at[of 2147483642] by (simp add: findNearest_def mapKey_def)
  have four: "map_sm ?m (Fin 2147483652) = Some 2147483652"
    using at[of 2147483652] by simp
  show ?thesis
    using one two three four by (simp add: lessEq_number_def less_number_def)
qed

text \<open>
  Claim C1, amended. On every \<open>SortedMap\<close> reached from the empty one by operations of
  the class that holds no NaN key and fewer than \<open>2^31\<close> keys, and for every target
  other than NaN, \<open>findNearest(targetKey)\<close> returns the value stored under the greatest
  key that is at most \<open>targetKey\<close>, and \<open>undefined\<close> when no key is at most
  \<open>targetKey\<close>: when the target is below every key or the map is empty. For a stored
  key that is the value under the key itself; otherwise it is the value under the key at
  index \<open>insertionPoint - 1\<close> of the key sequence. In particular, after \<open>set(1,'a')\<close>,
  \<open>set(5,'b')\<close>, \<open>set(3,'c')\<close>, \<open>findNearest(4)\<close> is \<open>'c'\<close> and \<open>findNearest(0)\<close> is
  \<open>undefined\<close>.
\<close>

theorem findNearest_floor:
  assumes "\<not> has (reached ops) NaN" and "targetKey \<noteq> NaN"
    and "length (sortedKeys (reached ops)) < 2 ^ 31"
  shows "(if \<exists>key \<in> dom (map_sm (reached ops)). lessEq_number key targetKey
      then \<exists>key \<in> dom (map_sm (reached ops)). lessEq_number key targetKey \<and>
             (\<forall>key' \<in> dom (map_sm (reached ops)).
                lessEq_number key' targetKey \<longrightarrow> lessEq_number key' key) \<and>
             findNearest (reached ops) targetKey = Inr (map_sm (reached ops) key)
      else findNearest (reached ops) targetKey = Inr None) \<and>
     (has (reached ops) targetKey \<longrightarrow>
        findNearest (reached ops) targetKey = Inr (map_sm (reached ops) (mapKey targetKey))) \<and>
     (\<forall>p. \<not> has (reached ops) targetKey \<and>
          insertionPoint difference targetKey (sortedKeys (reached ops)) p \<longrightarrow>
        findNearest (reached ops) targetKey =
          Inr (case element (sortedKeys (reached ops)) (int p - 1) of
                 None \<Rightarrow> None
               | Some key \<Rightarrow> map_sm (reached ops) (mapKey key))) \<and>
     findNearest (reached [Set (Fin 1) ''a'', Set (Fin 5) ''b'', Set (Fin 3) ''c'']) (Fin 4) =
       Inr (Some ''c'') \<and>
     findNearest (reached [Set (Fin 1) ''a'', Set (Fin 5) ''b'', Set (Fin 3) ''c'']) (Fin 0) =
       Inr None"
proof -
  have keys: "sorted_wrt less_number (sortedKeys (reached ops))"
    "NaN \<notin> set (sortedKeys (reached ops))"
    "mapKey ` set (sortedKeys (reached ops)) = dom (map_sm (reached ops))"
    using reached_keys[of ops] assms(1) by auto
  show ?thesis
    using findNearest_greatest[OF keys assms(2,3)]
      findNearest_exact[OF keys assms(2,3)]
      findNearest_insertionPoint[OF keys assms(2,3)]
      findNearest_example_4 findNearest_example_0
    by blast
qed

theorem findNearest_floor_witness:
  "\<not> has (reached [Set (Fin 1) ''a'', Set (Fin 5) ''b'', Set (Fin 3) ''c'']) NaN \<and>
   Fin 5 \<noteq> NaN \<and> Fin 4 \<noteq> NaN \<and>
   length (sortedKeys (reached [Set (Fin 1) ''a'', Set (Fin 5) ''b'', Set (Fin 3) ''c''])) < 2 ^ 31 \<and>
   has (reached [Set (Fin 1) ''a'', Set (Fin 5) ''b'', Set (Fin 3) ''c'']) (Fin 5) \<and>
   findNearest (reached [Set (Fin 1) ''a'', Set (Fin 5) ''b'', Set (Fin 3) ''c'']) (Fin 5) =
     Inr (Some ''b'') \<and>
   \<not> has (reached [Set (Fin 1) ''a'', Set (Fin 5) ''b'', Set (Fin 3) ''c'']) (Fin 4) \<and>
   insertionPoint difference (Fin 4)
     (sortedKeys (reached [Set (Fin 1) ''a'', Set (Fin 5) ''b'', Set (Fin 3) ''c''])) 2 \<and>
   findNearest (reached [Set (Fin 1) ''a'', Set (Fin 5) ''b'', Set (Fin 3) ''c'']) (Fin 4) =
     Inr (Some ''c'')"
proof -
  let ?m = "reached [Set (Fin 1) ''a'', Set (Fin 5) ''b'', Set (Fin 3) ''c'']"
  have nn: "\<not> has ?m NaN"
    by (simp add: reached_example has_def mapKey_def)
  have t5: "Fin 5 \<noteq> NaN" and t4: "Fin 4 \<noteq> NaN"
    by simp_all
  have len: "length (sortedKeys ?m) < 2 ^ 31"
    by (simp add: reached_example)
  have h5: "has ?m (Fin 5)" and h4: "\<not> has ?m (Fin 4)"
    by (simp_all add: reached_example has_def mapKey_def)
  have ins: "insertionPoint difference (Fin 4) (sortedKeys ?m) 2"
    by (simp add: reached_example insertionPoint_difference less_number_def less_Suc_eq
        nth_Cons' all_conj_distrib)
  have "findNearest ?m (Fin 5) = Inr (map_sm ?m (mapKey (Fin 5)))"
    using findNearest_floor[OF nn t5 len] h5 by blast
  then have f5: "findNearest ?m (Fin 5) = Inr (Some ''b'')"
    by (simp add: reached_example mapKey_def)
  have "findNearest ?m (Fin 4) =
      Inr (case element (sortedKeys ?m) (int 2 - 1) of
             None \<Rightarrow> None
           | Some key \<Rightarrow> map_sm ?m (mapKey key))"
    using findNearest_floor[OF nn t4 len] h4 ins by blast
  then have f4: "findNearest ?m (Fin 4) = Inr (Some ''c'')"
    by (simp add: reached_example element_def mapKey_def)
  show ?thesis
    using nn t5 t4 len h5 f5 h4 ins f4 by blast
qed

text \<open>
  Claim C3, as stated, fails with a NaN key. Every comparison with NaN is NaN, which
  \<open>sort\<close> takes as 0, so no element moves past NaN: after \<open>set(2,'a')\<close>,
  \<open>set(NaN,'b')\<close>, \<open>set(1,'c')\<close> the key sequence is \<open>[2, NaN, 1]\<close>, which does not
  ascend.
\<close>

theorem SortedMap_invariant_counterexample:
  "sortedKeys (reached [Set (Fin 2) ''a'', Set NaN ''b'', Set (Fin 1) ''c'']) =
     [Fin 2, NaN, Fin 1] \<and>
   \<not> invariant (reached [Set (Fin 2) ''a'', Set NaN ''b'', Set (Fin 1) ''c'']) \<and>
   \<not> lessEq_number (Fin 2) (Fin 1)"
proof -
  have keys: "sortedKeys (reached [Set (Fin 2) ''a'', Set NaN ''b'', Set (Fin 1) ''c'']) =
      [Fin 2, NaN, Fin 1]"
    by (simp add: reached_def new_SortedMap_def set_sm_def has_def mapKey_def sortArray_def
        isPositive_sortCompare less_number_def)
  show ?thesis
    unfolding invariant_def keys by (simp add: lessEq_number_def less_number_def)
qed

text \<open>
  Claim C3, amended. Every \<open>SortedMap\<close> reached from the empty one by a sequence of
  \<open>set\<close>, \<open>findNearest\<close>, \<open>has\<close> and \<open>clear\<close> that holds no NaN key satisfies the
  invariant: the key sequence is sorted ascending, has no duplicates, and its elements are
  exactly the keys of the mapping. On such a map \<open>set\<close> with a new key other than NaN
  inserts the key into the sequence at its place, after the keys below it and before the
  keys above it; \<open>set\<close> with an existing key leaves the sequence unchanged; and
  \<open>clear\<close> gives the empty map, whose mapping and key sequence are both empty.
\<close>

theorem SortedMap_invariant:
  assumes "\<not> has (reached ops) NaN"
  shows "invariant (reached ops) \<and>
   (\<forall>key v. key \<noteq> NaN \<and> \<not> has (reached ops) key \<longrightarrow>
      sortedKeys (set_sm (reached ops) key v) =
        filter (\<lambda>k. less_number k key) (sortedKeys (reached ops)) @
        key # filter (less_number key) (sortedKeys (reached ops))) \<and>
   (\<forall>key v. has (reached ops) key \<longrightarrow>
      sortedKeys (set_sm (reached ops) key v) = sortedKeys (reached ops)) \<and>
   (\<forall>key v. map_sm (set_sm (reached ops) key v) = (map_sm (reached ops))(mapKey key \<mapsto> v)) \<and>
   map_sm (clear (reached ops)) = Map.empty \<and> sortedKeys (clear (reached ops)) = []"
proof (intro conjI allI impI)
  show "invariant (reached ops)" using assms by (rule invariant_reached)
  show "sortedKeys (set_sm (reached ops) key v) =
        filter (\<lambda>k. less_number k key) (sortedKeys (reached ops)) @
        key # filter (less_number key) (sortedKeys (reached ops))"
    if "key \<noteq> NaN \<and> \<not> has (reached ops) key" for key v
    using assms that by (intro set_new_key) simp_all
  show "sortedKeys (set_sm (reached ops) key v) = sortedKeys (reached ops)"
    if "has (reached ops) key" for key v
    using that by (rule set_existing_key)
  show "map_sm (set_sm (reached ops) key v) = (map_sm (reached ops))(mapKey key \<mapsto> v)" for key v
    by (simp add: set_sm_def)
  show "map_sm (clear (reached ops)) = Map.empty" by (simp add: clear_def)
  show "sortedKeys (clear (reached ops)) = []" by (simp add: clear_def)
qed

theorem SortedMap_invariant_witness:
  "\<not> has (reached [Set (Fin 1) ''a'', Set (Fin 5) ''b'', FindNearest (Fin 2), Has (Fin 7)]) NaN \<and>
   invariant (reached [Set (Fin 1) ''a'', Set (Fin 5) ''b'', FindNearest (Fin 2), Has (Fin 7)]) \<and>
   Fin 3 \<noteq> NaN \<and>
   \<not> has (reached [Set (Fin 1) ''a'', Set (Fin 5) ''b'', FindNearest (Fin 2), Has (Fin 7)]) (Fin 3) \<and>
   sortedKeys (set_sm (reached [Set (Fin 1) ''a'', Set (Fin 5) ''b'', FindNearest (Fin 2), Has (Fin 7)])
     (Fin 3) ''c'') = [Fin 1, Fin 3, Fin 5] \<and>
   has (reached [Set (Fin 1) ''a'', Set (Fin 5) ''b'', FindNearest (Fin 2), Has (Fin 7)]) (Fin 5) \<and>
   sortedKeys (set_sm (reached [Set (Fin 1) ''a'', Set (Fin 5) ''b'', FindNearest (Fin 2), Has (Fin 7)])
     (Fin 5) ''z'') = [Fin 1, Fin 5]"
proof -
  let ?m = "reached [Set (Fin 1) ''a'', Set (Fin 5) ''b'', FindNearest (Fin 2), Has (Fin 7)]"
  have m: "?m = \<lparr>map_sm = [Fin 1 \<mapsto> ''a'', Fin 5 \<mapsto> ''b''], sortedKeys = [Fin 1, Fin 5]\<rparr>"
    by (simp add: reached_def new_SortedMap_def set_sm_def has_def mapKey_def sortArray_def
        isPositive_sortCompare less_number_def)
  have nn: "\<not> has ?m NaN" and h3: "\<not> has ?m (Fin 3)" and h5: "has ?m (Fin 5)"
    by (simp_all add: m has_def mapKey_def)
  note inst = SortedMap_invariant[OF nn]
  have "sortedKeys (set_sm ?m (Fin 3) ''c'') =
      filter (\<lambda>k. less_number k (Fin 3)) (sortedKeys ?m) @
      Fin 3 # filter (less_number (Fin 3)) (sortedKeys ?m)"
    using inst h3 by blast
  then have s3: "sortedKeys (set_sm ?m (Fin 3) ''c'') = [Fin 1, Fin 3, Fin 5]"
    by (simp add: m less_number_def)
  have "sortedKeys (set_sm ?m (Fin 5) ''z'') = sortedKeys ?m"
    using inst h5 by blast
  then have s5: "sortedKeys (set_sm ?m (Fin 5) ''z'') = [Fin 1, Fin 5]"
    by (simp add: m)
  show ?thesis
    using inst nn h3 s3 h5 s5 by blast
qed

section \<open>Properties of createChangeTracker\<close>

lemma checkArgs_first:
  "checkArgs (createChangeTracker flag) args =
     ((case flag of None \<Rightarrow> True | Some b \<Rightarrow> b),
      (createChangeTracker flag)\<lparr>previousArgs := Some args\<rparr>)"
  by (simp add: checkArgs_def createChangeTracker_def)

lemma checkArgs_later:
  "previousArgs t = Some previous \<Longrightarrow>
   checkArgs t args =
     (if args = previous then (False, t) else (True, t\<lparr>previousArgs := Some args\<rparr>))"
  by (simp add: checkArgs_def deepEqual_def)

lemma checkArgs_records: "previousArgs (snd (checkArgs t args)) = Some args"
  by (auto simp: checkArgs_def deepEqual_def split: option.splits)

lemma checkArgs_example:
  "invocations (createChangeTracker None) [[1, 2], [1, 2], [1, 3 :: int]] = [True, False, True]"
  by (simp add: checkArgs_def createChangeTracker_def deepEqual_def)

text \<open>
  Claim C5. The first invocation of the predicate made by
  \<open>createChangeTracker(trueOnFirstCall)\<close> returns \<open>trueOnFirstCall\<close>, which is true
  when the argument is omitted, and records its arguments. A later invocation, made when
  a tuple is recorded, returns false and leaves the record as it is when its arguments
  are deeply equal to the recorded tuple; otherwise it records its arguments and returns
  true. Every invocation leaves a tuple recorded, so every invocation after the first is
  a later one. In particular the calls \<open>t(1,2)\<close>, \<open>t(1,2)\<close>, \<open>t(1,3)\<close> of
  \<open>t = createChangeTracker()\<close> return true, false, true.
\<close>

theorem createChangeTracker_checkArgs:
  "checkArgs (createChangeTracker flag) args =
     ((case flag of None \<Rightarrow> True | Some b \<Rightarrow> b),
      (createChangeTracker flag)\<lparr>previousArgs := Some args\<rparr>) \<and>
   (\<forall>previous. previousArgs t = Some previous \<longrightarrow>
      checkArgs t args =
        (if deepEqual args previous then (False, t)
         else (True, t\<lparr>previousArgs := Some args\<rparr>))) \<and>
   previousArgs (snd (checkArgs t args)) \<noteq> None \<and>
   invocations (createChangeTracker None) [[1, 2], [1, 2], [1, 3 :: int]] = [True, False, True]"
  using checkArgs_first[of flag args] checkArgs_later[of t _ args] checkArgs_records[of t args]
    checkArgs_example
  by (simp add: deepEqual_def)

theorem createChangeTracker_checkArgs_witness:
  "previousArgs (snd (checkArgs (createChangeTracker (Some False)) [1, 2 :: int])) = Some [1, 2] \<and>
   fst (checkArgs (createChangeTracker (Some False)) [1, 2 :: int]) = False \<and>
   fst (checkArgs (snd (checkArgs (createChangeTracker (Some False)) [1, 2 :: int])) [1, 2]) = False \<and>
   fst (checkArgs (snd (checkArgs (createChangeTracker (Some False)) [1, 2 :: int])) [1, 3]) = True"
proof -
  let ?t = "snd (checkArgs (createChangeTracker (Some False)) [1, 2 :: int])"
  have first: "checkArgs (createChangeTracker (Some False)) [1, 2 :: int] =
      (False, (createChangeTracker (Some False))\<lparr>previousArgs := Some [1, 2]\<rparr>)"
    using createChangeTracker_checkArgs[where flag = "Some False" and args = "[1, 2 :: int]"
        and t = "createChangeTracker None"]
    by simp
  then have rec: "previousArgs ?t = Some [1, 2]"
    by simp
  have "fst (checkArgs ?t [1, 2]) = False"
    using createChangeTracker_checkArgs[where t = ?t and args = "[1, 2]" and flag = None] rec
    by (simp add: deepEqual_def)
  moreover have "fst (checkArgs ?t [1, 3]) = True"
    using createChangeTracker_checkArgs[where t = ?t and args = "[1, 3]" and flag = None] rec
    by (simp add: deepEqual_def)
  ultimately show ?thesis
    using first rec by simp
qed

text \<open>
  With a tuple recorded, the answers to a sequence of invocations tell, for each one,
  whether its arguments differ from those of the invocation before it.
\<close>

lemma invocations_changes:
  assumes "previousArgs t = Some previous"
  shows "invocations t calls = map (\<lambda>(args, before). args \<noteq> before) (zip calls (previous # calls))"
  using assms
proof (induction calls arbitrary: t previous)
  case Nil
  show ?case by simp
next
  case (Cons args rest)
  have "previousArgs (snd (checkArgs t args)) = Some args"
    by (rule checkArgs_records)
  then have "invocations (snd (checkArgs t args)) rest =
      map (\<lambda>(args, before). args \<noteq> before) (zip rest (args # rest))"
    by (rule Cons.IH)
  moreover have "fst (checkArgs t args) = (args \<noteq> previous)"
    using Cons.prems by (simp add: checkArgs_later)
  ultimately show ?case by simp
qed

section \<open>Properties of clampToRect\<close>








section \<open>Properties of adjustPointToCircle\<close>

lemma minus_Fin: "minus_double e (Fin x) (Fin y) = (if x = y then Fin 0 else double e (x - y))"
  by (simp add: minus_double_def plus_double_def isInfinite_def)

lemma plus_Fin:
  "plus_double e (Fin x) (Fin y) = (if x + y = 0 then Fin 0 else double e (x + y))"
  by (simp add: plus_double_def isInfinite_def)

lemma times_Fin:
  "times_double e (Fin x) (Fin y) =
     (if x = 0 \<or> y = 0 then signedZero ((x < 0) \<noteq> (y < 0)) else double e (x * y))"
  by (simp add: times_double_def isInfinite_def isZero_def)

lemma adjustPointToCircle_examples:
  fixes e :: engine
  assumes pw: "\<And>a b. Math_pow e a b = (if a = NaN then NaN else Fin (val a * val a))"
    and at: "\<And>y x. Math_atan2 e y x = (if y = NaN \<or> x = NaN then NaN else Fin 0)"
    and cs: "\<And>a. Math_cos e a = (if a = NaN then NaN else Fin 1)"
    and sn: "\<And>a. Math_sin e a = (if a = NaN then NaN else Fin 0)"
    and nr: "nearest e 9007199254740993 = Nearest 9007199254740992"
  shows "\<not> inRadius e \<lparr>px = NaN, py = Fin 0\<rparr> \<lparr>px = Fin 0, py = Fin 0\<rparr> (Fin 1)"
    and "adjustPointToCircle e \<lparr>px = NaN, py = Fin 0\<rparr> \<lparr>px = Fin 0, py = Fin 0\<rparr> (Fin 1) =
          \<lparr>px = NaN, py = NaN\<rparr>"
    and "\<not> inRadius e \<lparr>px = NaN, py = NaN\<rparr> \<lparr>px = Fin 0, py = Fin 0\<rparr> (Fin 1)"
    and "\<not> inRadius e \<lparr>px = Fin 9007199254740996, py = Fin 0\<rparr>
            \<lparr>px = Fin 9007199254740992, py = Fin 0\<rparr> (Fin 1)"
    and "adjustPointToCircle e \<lparr>px = Fin 9007199254740996, py = Fin 0\<rparr>
            \<lparr>px = Fin 9007199254740992, py = Fin 0\<rparr> (Fin 1) =
          \<lparr>px = Fin 9007199254740992, py = Fin 0\<rparr>"
    and "squaredDistance e \<lparr>px = Fin 9007199254740992, py = Fin 0\<rparr>
            \<lparr>px = Fin 9007199254740992, py = Fin 0\<rparr> = Fin 0"
proof -
  have nanx: "minus_double e NaN (Fin 0) = NaN"
    by (simp add: minus_double_def plus_double_def)
  have d_nan: "squaredDistance e \<lparr>px = NaN, py = Fin 0\<rparr> \<lparr>px = Fin 0, py = Fin 0\<rparr> = NaN"
    by (simp add: squaredDistance_def nanx pw plus_double_def)
  show g1: "\<not> inRadius e \<lparr>px = NaN, py = Fin 0\<rparr> \<lparr>px = Fin 0, py = Fin 0\<rparr> (Fin 1)"
    by (simp add: inRadius_def d_nan lessEq_number_def)
  show "adjustPointToCircle e \<lparr>px = NaN, py = Fin 0\<rparr> \<lparr>px = Fin 0, py = Fin 0\<rparr> (Fin 1) =
          \<lparr>px = NaN, py = NaN\<rparr>"
    using g1 by (simp add: adjustPointToCircle_def nanx at cs sn times_double_def plus_double_def)
  show "\<not> inRadius e \<lparr>px = NaN, py = NaN\<rparr> \<lparr>px = Fin 0, py = Fin 0\<rparr> (Fin 1)"
    by (simp add: inRadius_def squaredDistance_def nanx pw plus_double_def lessEq_number_def)
  have dx: "minus_double e (Fin 9007199254740996) (Fin 9007199254740992) = Fin 4"
    by (simp add: minus_Fin double_def)
  have dy: "minus_double e (Fin 0) (Fin 0) = Fin 0"
    by (simp add: minus_Fin)
  have d2: "squaredDistance e \<lparr>px = Fin 9007199254740996, py = Fin 0\<rparr>
      \<lparr>px = Fin 9007199254740992, py = Fin 0\<rparr> = Fin 16"
    by (simp add: squaredDistance_def dx dy pw plus_Fin double_def)
  show g2: "\<not> inRadius e \<lparr>px = Fin 9007199254740996, py = Fin 0\<rparr>
            \<lparr>px = Fin 9007199254740992, py = Fin 0\<rparr> (Fin 1)"
    by (simp add: inRadius_def d2 pw lessEq_number_def less_number_def)
  have x: "plus_double e (Fin 9007199254740992) (times_double e (Fin 1) (Fin 1)) =
      Fin 9007199254740992"
    by (simp add: times_Fin plus_Fin double_def nr)
  have y: "plus_double e (Fin 0) (times_double e (Fin 1) (Fin 0)) = Fin 0"
    by (simp add: times_Fin plus_Fin signedZero_def)
  show "adjustPointToCircle e \<lparr>px = Fin 9007199254740996, py = Fin 0\<rparr>
            \<lparr>px = Fin 9007199254740992, py = Fin 0\<rparr> (Fin 1) =
          \<lparr>px = Fin 9007199254740992, py = Fin 0\<rparr>"
    using g2 by (simp add: adjustPointToCircle_def dx dy at cs sn x y)
  have z: "minus_double e (Fin 9007199254740992) (Fin 9007199254740992) = Fin 0"
    by (simp add: minus_Fin)
  show "squaredDistance e \<lparr>px = Fin 9007199254740992, py = Fin 0\<rparr>
            \<lparr>px = Fin 9007199254740992, py = Fin 0\<rparr> = Fin 0"
    by (simp add: squaredDistance_def z dy pw plus_Fin)
qed

text \<open>
  Claim C6, as stated, fails in its second half. The engine of the examples is given at
  the arguments they reach: the square of a number is NaN for NaN and exact for \<open>0\<close>,
  \<open>1\<close> and \<open>4\<close>; \<open>Math.atan2\<close> is NaN with a NaN argument and \<open>0\<close> at \<open>(0, 4)\<close>;
  \<open>Math.cos\<close> and \<open>Math.sin\<close> are NaN at NaN, and \<open>1\<close> and \<open>0\<close> at \<open>0\<close>; the sum
  \<open>2^53 + 1\<close> lies halfway between two doubles and is rounded to the even one, \<open>2^53\<close>.
  With \<open>p.x = NaN\<close> the squared distance is NaN, the guard fails, the angle is NaN, and
  the result is the point \<open>(NaN, NaN)\<close>, of which \<open>inRadius\<close> does not hold. With the
  finite point \<open>p = (2^53 + 4, 0)\<close>, the centre \<open>c = (2^53, 0)\<close> and \<open>r = 1\<close> the guard
  fails and the result is \<open>c\<close> itself: its squared distance from \<open>c\<close> is \<open>0\<close>, not
  \<open>r ** 2 = 1\<close>.
\<close>

theorem adjustPointToCircle_counterexample:
  "(let e = \<lparr>nearest = (\<lambda>x. Nearest (if x = 9007199254740993 then 9007199254740992 else x)),
             Math_pow = (\<lambda>a b. if a = NaN then NaN else Fin (val a * val a)),
             Math_atan2 = (\<lambda>y x. if y = NaN \<or> x = NaN then NaN else Fin 0),
             Math_cos = (\<lambda>a. if a = NaN then NaN else Fin 1),
             Math_sin = (\<lambda>a. if a = NaN then NaN else Fin 0)\<rparr>;
        origin = \<lparr>px = Fin 0, py = Fin 0\<rparr>;
        c = \<lparr>px = Fin 9007199254740992, py = Fin 0\<rparr>;
        p = \<lparr>px = Fin 9007199254740996, py = Fin 0\<rparr>
    in \<not> inRadius e \<lparr>px = NaN, py = Fin 0\<rparr> origin (Fin 1) \<and>
       adjustPointToCircle e \<lparr>px = NaN, py = Fin 0\<rparr> origin (Fin 1) = \<lparr>px = NaN, py = NaN\<rparr> \<and>
       \<not> inRadius e \<lparr>px = NaN, py = NaN\<rparr> origin (Fin 1) \<and>
       \<not> inRadius e p c (Fin 1) \<and>
       adjustPointToCircle e p c (Fin 1) = c \<and>
       squaredDistance e c c = Fin 0 \<and>
       Math_pow e (Fin 1) (Fin 2) = Fin 1)"
proof -
  define e where "e = \<lparr>nearest = (\<lambda>x. Nearest (if x = 9007199254740993 then 9007199254740992 else x)),
             Math_pow = (\<lambda>a b. if a = NaN then NaN else Fin (val a * val a)),
             Math_atan2 = (\<lambda>y x. if y = NaN \<or> x = NaN then NaN else Fin 0),
             Math_cos = (\<lambda>a. if a = NaN then NaN else Fin 1),
             Math_sin = (\<lambda>a. if a = NaN then NaN else Fin 0)\<rparr>"
  have pw: "Math_pow e a b = (if a = NaN then NaN else Fin (val a * val a))" for a b
    by (simp add: e_def)
  have at: "Math_atan2 e y x = (if y = NaN \<or> x = NaN then NaN else Fin 0)" for y x
    by (simp add: e_def)
  have cs: "Math_cos e a = (if a = NaN then NaN else Fin 1)" for a
    by (simp add: e_def)
  have sn: "Math_sin e a = (if a = NaN then NaN else Fin 0)" for a
    by (simp add: e_def)
  have nr: "nearest e 9007199254740993 = Nearest 9007199254740992"
    by (simp add: e_def)
  have "Math_pow e (Fin 1) (Fin 2) = Fin 1"
    by (simp add: pw)
  then have "\<not> inRadius e \<lparr>px = NaN, py = Fin 0\<rparr> \<lparr>px = Fin 0, py = Fin 0\<rparr> (Fin 1) \<and>
       adjustPointToCircle e \<lparr>px = NaN, py = Fin 0\<rparr> \<lparr>px = Fin 0, py = Fin 0\<rparr> (Fin 1) =
         \<lparr>px = NaN, py = NaN\<rparr> \<and>
       \<not> inRadius e \<lparr>px = NaN, py = NaN\<rparr> \<lparr>px = Fin 0, py = Fin 0\<rparr> (Fin 1) \<and>
       \<not> inRadius e \<lparr>px = Fin 9007199254740996, py = Fin 0\<rparr>
           \<lparr>px = Fin 9007199254740992, py = Fin 0\<rparr> (Fin 1) \<and>
       adjustPointToCircle e \<lparr>px = Fin 9007199254740996, py = Fin 0\<rparr>
           \<lparr>px = Fin 9007199254740992, py = Fin 0\<rparr> (Fin 1) =
         \<lparr>px = Fin 9007199254740992, py = Fin 0\<rparr> \<and>
       squaredDistance e \<lparr>px = Fin 9007199254740992, py = Fin 0\<rparr>
           \<lparr>px = Fin 9007199254740992, py = Fin 0\<rparr> = Fin 0 \<and>
       Math_pow e (Fin 1) (Fin 2) = Fin 1"
    using adjustPointToCircle_examples[of e, OF pw at cs sn nr] by blast
  then show ?thesis
    unfolding Let_def e_def .
qed

text \<open>
  Claim C6, amended. If \<open>inRadius(p, c, r)\<close> holds, which is that the squared distance
  \<open>d2\<close> computed from \<open>p\<close> and \<open>c\<close> is at most \<open>r ** 2\<close>, then
  \<open>adjustPointToCircle(p, c, r)\<close> returns \<open>p\<close> itself; otherwise it returns the point
  \<open>(c.x + r * cos \<theta>, c.y + r * sin \<theta>)\<close> with \<open>\<theta> = atan2(p.y - c.y, p.x - c.x)\<close>, as
  the arithmetic of doubles computes it. This holds whatever the rounding and the
  approximations of \<open>Math\<close> are. The distance of that point from \<open>c\<close> need not be
  \<open>r\<close>, as the examples above show.
\<close>

theorem adjustPointToCircle_fixed:
  "(inRadius e p c r \<longleftrightarrow> lessEq_number (squaredDistance e p c) (Math_pow e r (Fin 2))) \<and>
   (inRadius e p c r \<longrightarrow> adjustPointToCircle e p c r = p) \<and>
   (\<not> inRadius e p c r \<longrightarrow>
      adjustPointToCircle e p c r =
        \<lparr>px = plus_double e (px c)
                (times_double e r
                   (Math_cos e (Math_atan2 e (minus_double e (py p) (py c))
                                  (minus_double e (px p) (px c))))),
         py = plus_double e (py c)
                (times_double e r
                   (Math_sin e (Math_atan2 e (minus_double e (py p) (py c))
                                  (minus_double e (px p) (px c)))))\<rparr>)"
proof (intro conjI impI)
  show "inRadius e p c r \<longleftrightarrow> lessEq_number (squaredDistance e p c) (Math_pow e r (Fin 2))"
    by (simp add: inRadius_def)
  show "adjustPointToCircle e p c r = p" if "inRadius e p c r"
    using that by (simp add: adjustPointToCircle_def)
  show "adjustPointToCircle e p c r =
        \<lparr>px = plus_double e (px c)
                (times_double e r
                   (Math_cos e (Math_atan2 e (minus_double e (py p) (py c))
                                  (minus_double e (px p) (px c))))),
         py = plus_double e (py c)
                (times_double e r
                   (Math_sin e (Math_atan2 e (minus_double e (py p) (py c))
                                  (minus_double e (px p) (px c)))))\<rparr>"
    if "\<not> inRadius e p c r"
    using that by (simp add: adjustPointToCircle_def Let_def)
qed

theorem adjustPointToCircle_fixed_witness:
  "(let e = \<lparr>nearest = Nearest,
             Math_pow = (\<lambda>a b. if a = NaN then NaN else Fin (val a * val a)),
             Math_atan2 = (\<lambda>y x. if y = NaN \<or> x = NaN then NaN else Fin 0),
             Math_cos = (\<lambda>a. if a = NaN then NaN else Fin 1),
             Math_sin = (\<lambda>a. if a = NaN then NaN else Fin 0)\<rparr>;
        c = \<lparr>px = Fin 0, py = Fin 0\<rparr>
    in inRadius e \<lparr>px = Fin 1, py = Fin 1\<rparr> c (Fin 2) \<and>
       adjustPointToCircle e \<lparr>px = Fin 1, py = Fin 1\<rparr> c (Fin 2) = \<lparr>px = Fin 1, py = Fin 1\<rparr> \<and>
       \<not> inRadius e \<lparr>px = Fin 4, py = Fin 0\<rparr> c (Fin 2) \<and>
       adjustPointToCircle e \<lparr>px = Fin 4, py = Fin 0\<rparr> c (Fin 2) = \<lparr>px = Fin 2, py = Fin 0\<rparr>)"
proof -
  define e where "e = \<lparr>nearest = Nearest,
             Math_pow = (\<lambda>a b. if a = NaN then NaN else Fin (val a * val a)),
             Math_atan2 = (\<lambda>y x. if y = NaN \<or> x = NaN then NaN else Fin 0),
             Math_cos = (\<lambda>a. if a = NaN then NaN else Fin 1),
             Math_sin = (\<lambda>a. if a = NaN then NaN else Fin 0)\<rparr>"
  have pw: "Math_pow e a b = (if a = NaN then NaN else Fin (val a * val a))" for a b
    by (simp add: e_def)
  have at: "Math_atan2 e y x = (if y = NaN \<or> x = NaN then NaN else Fin 0)" for y x
    by (simp add: e_def)
  have cs: "Math_cos e a = (if a = NaN then NaN else Fin 1)" for a
    by (simp add: e_def)
  have sn: "Math_sin e a = (if a = NaN then NaN else Fin 0)" for a
    by (simp add: e_def)
  have d1: "squaredDistance e \<lparr>px = Fin 1, py = Fin 1\<rparr> \<lparr>px = Fin 0, py = Fin 0\<rparr> = Fin 2"
    by (simp add: squaredDistance_def minus_Fin pw plus_Fin double_def)
  have d4: "squaredDistance e \<lparr>px = Fin 4, py = Fin 0\<rparr> \<lparr>px = Fin 0, py = Fin 0\<rparr> = Fin 16"
    by (simp add: squaredDistance_def minus_Fin pw plus_Fin double_def)
  have r2: "Math_pow e (Fin 2) (Fin 2) = Fin 4"
    by (simp add: pw)
  note inside = adjustPointToCircle_fixed[of e "\<lparr>px = Fin 1, py = Fin 1\<rparr>"
      "\<lparr>px = Fin 0, py = Fin 0\<rparr>" "Fin 2"]
  note outside = adjustPointToCircle_fixed[of e "\<lparr>px = Fin 4, py = Fin 0\<rparr>"
      "\<lparr>px = Fin 0, py = Fin 0\<rparr>" "Fin 2"]
  have i1: "inRadius e \<lparr>px = Fin 1, py = Fin 1\<rparr> \<lparr>px = Fin 0, py = Fin 0\<rparr> (Fin 2)"
    using inside by (simp add: d1 r2 lessEq_number_def less_number_def)
  have i4: "\<not> inRadius e \<lparr>px = Fin 4, py = Fin 0\<rparr> \<lparr>px = Fin 0, py = Fin 0\<rparr> (Fin 2)"
    using outside by (simp add: d4 r2 lessEq_number_def less_number_def)
  have a1: "adjustPointToCircle e \<lparr>px = Fin 1, py = Fin 1\<rparr> \<lparr>px = Fin 0, py = Fin 0\<rparr> (Fin 2) =
      \<lparr>px = Fin 1, py = Fin 1\<rparr>"
    using inside i1 by blast
  have x: "plus_double e (Fin 0) (times_double e (Fin 2) (Fin 1)) = Fin 2"
    by (simp add: times_Fin plus_Fin double_def)
  have y: "plus_double e (Fin 0) (times_double e (Fin 2) (Fin 0)) = Fin 0"
    by (simp add: times_Fin plus_Fin signedZero_def)
  have "adjustPointToCircle e \<lparr>px = Fin 4, py = Fin 0\<rparr> \<lparr>px = Fin 0, py = Fin 0\<rparr> (Fin 2) =
      \<lparr>px = plus_double e (Fin 0)
              (times_double e (Fin 2)
                 (Math_cos e (Math_atan2 e (minus_double e (Fin 0) (Fin 0))
                                (minus_double e (Fin 4) (Fin 0))))),
       py = plus_double e (Fin 0)
              (times_double e (Fin 2)
                 (Math_sin e (Math_atan2 e (minus_double e (Fin 0) (Fin 0))
                                (minus_double e (Fin 4) (Fin 0)))))\<rparr>"
    using outside i4 by simp
  then have a4: "adjustPointToCircle e \<lparr>px = Fin 4, py = Fin 0\<rparr> \<lparr>px = Fin 0, py = Fin 0\<rparr> (Fin 2) =
      \<lparr>px = Fin 2, py = Fin 0\<rparr>"
    by (simp add: minus_Fin double_def at cs sn x y)
  have "inRadius e \<lparr>px = Fin 1, py = Fin 1\<rparr> \<lparr>px = Fin 0, py = Fin 0\<rparr> (Fin 2) \<and>
       adjustPointToCircle e \<lparr>px = Fin 1, py = Fin 1\<rparr> \<lparr>px = Fin 0, py = Fin 0\<rparr> (Fin 2) =
         \<lparr>px = Fin 1, py = Fin 1\<rparr> \<and>
       \<not> inRadius e \<lparr>px = Fin 4, py = Fin 0\<rparr> \<lparr>px = Fin 0, py = Fin 0\<rparr> (Fin 2) \<and>
       adjustPointToCircle e \<lparr>px = Fin 4, py = Fin 0\<rparr> \<lparr>px = Fin 0, py = Fin 0\<rparr> (Fin 2) =
         \<lparr>px = Fin 2, py = Fin 0\<rparr>"
    using i1 a1 i4 a4 by blast
  then show ?thesis
    unfolding Let_def e_def .
qed

section \<open>Properties of interpolateNumber\<close>

lemma double_not_NaN: "double e x \<noteq> NaN"
  by (simp add: double_def signedInfinity_def signedZero_def split: rounded.splits)

lemma double_of_int: "\<bar>k\<bar> \<le> 2 ^ 53 \<Longrightarrow> double e (of_int k) = Fin (of_int k)"
proof -
  assume "\<bar>k\<bar> \<le> 2 ^ 53"
  then have "\<bar>real_of_int k\<bar> \<le> 2 ^ 53"
    by (metis of_int_abs of_int_le_iff of_int_numeral of_int_power)
  then show ?thesis by (simp add: double_def)
qed

lemma times_double_not_NaN:
  "t \<noteq> NaN \<Longrightarrow> n \<noteq> 0 \<Longrightarrow> times_double e t (Fin (of_int n)) \<noteq> NaN"
  by (simp add: times_double_def double_not_NaN isInfinite_def isZero_def signedInfinity_def
      signedZero_def)

lemma Math_floor_cases:
  "v \<noteq> NaN \<Longrightarrow>
   Math_floor v = NegInfinity \<or> Math_floor v = PosInfinity \<or> Math_floor v = NegZero \<or>
   (\<exists>k. Math_floor v = Fin (of_int k))"
  by (cases v) auto

lemma clamp_number_index:
  assumes "0 \<le> hi"
    and "v = NegInfinity \<or> v = PosInfinity \<or> v = NegZero \<or> (\<exists>k. v = Fin (of_int k))"
  shows "\<exists>k. 0 \<le> k \<and> k \<le> hi \<and>
     (clamp_number v (Some (Fin 0)) (Some (Fin (of_int hi))) = Fin (of_int k) \<or>
      (k = 0 \<and> clamp_number v (Some (Fin 0)) (Some (Fin (of_int hi))) = NegZero))"
proof -
  consider "v = NegInfinity" | "v = PosInfinity" | "v = NegZero" | k where "v = Fin (of_int k)"
    using assms(2) by blast
  then show ?thesis
  proof cases
    case 1
    then have "clamp_number v (Some (Fin 0)) (Some (Fin (of_int hi))) = Fin (of_int 0)"
      by (simp add: clamp_number_def less_number_def)
    then show ?thesis using assms(1) by blast
  next
    case 2
    then have "clamp_number v (Some (Fin 0)) (Some (Fin (of_int hi))) = Fin (of_int hi)"
      by (simp add: clamp_number_def less_number_def)
    then show ?thesis using assms(1) by blast
  next
    case 3
    then have "clamp_number v (Some (Fin 0)) (Some (Fin (of_int hi))) = NegZero"
      using assms(1) by (simp add: clamp_number_def less_number_def)
    then show ?thesis using assms(1) by blast
  next
    case 4
    consider "k < 0" | "0 \<le> k" "hi < k" | "0 \<le> k" "k \<le> hi" by linarith
    then show ?thesis
    proof cases
      case 1
      then have "clamp_number v (Some (Fin 0)) (Some (Fin (of_int hi))) = Fin (of_int 0)"
        using 4 by (simp add: clamp_number_def less_number_def)
      then show ?thesis using assms(1) by blast
    next
      case 2
      then have "clamp_number v (Some (Fin 0)) (Some (Fin (of_int hi))) = Fin (of_int hi)"
        using 4 by (simp add: clamp_number_def less_number_def)
      then show ?thesis using assms(1) by blast
    next
      case 3
      then have "clamp_number v (Some (Fin 0)) (Some (Fin (of_int hi))) = Fin (of_int k)"
        using 4 by (simp add: clamp_number_def less_number_def)
      then show ?thesis using 3 by blast
    qed
  qed
qed

lemma segmentIndex_bounds:
  assumes "2 \<le> length values" "t \<noteq> NaN"
  shows "\<exists>k. 0 \<le> k \<and> k \<le> int (length values) - 2 \<and>
     (segmentIndex e values t = Fin (of_int k) \<or> (k = 0 \<and> segmentIndex e values t = NegZero))"
proof -
  define n where "n = int (length values) - 1"
  have n: "n \<noteq> 0" "0 \<le> n - 1" "n - 1 = int (length values) - 2"
    using assms(1) by (simp_all add: n_def)
  have "times_double e t (Fin (of_int n)) \<noteq> NaN"
    using assms(2) n(1) by (rule times_double_not_NaN)
  then have "\<exists>k. 0 \<le> k \<and> k \<le> n - 1 \<and>
     (clamp_number (Math_floor (times_double e t (Fin (of_int n)))) (Some (Fin 0))
        (Some (Fin (of_int (n - 1)))) = Fin (of_int k) \<or>
      (k = 0 \<and> clamp_number (Math_floor (times_double e t (Fin (of_int n)))) (Some (Fin 0))
        (Some (Fin (of_int (n - 1)))) = NegZero))"
    using n(2) by (intro clamp_number_index Math_floor_cases)
  then show ?thesis
    unfolding segmentIndex_def Let_def n_def[symmetric] n(3) .
qed

lemma elementAt_of_int: "elementAt xs (Fin (of_int k)) = element xs k"
  by simp

lemma interpolateNumber_reads:
  assumes "0 \<le> k" "k \<le> int (length values) - 2"
    and "i = Fin (of_int k) \<or> (k = 0 \<and> i = NegZero)"
  shows "elementAt values i = Some (values ! nat k)"
    and "element values (k + 1) = Some (values ! nat (k + 1))"
    and "length values \<le> 2 ^ 53 \<Longrightarrow>
         elementAt values (plus_double e i (Fin 1)) = Some (values ! nat (k + 1))"
proof -
  show "elementAt values i = Some (values ! nat k)"
    using assms by (auto simp: element_def)
  show next_read: "element values (k + 1) = Some (values ! nat (k + 1))"
    using assms(1,2) by (simp add: element_def)
  assume len: "length values \<le> 2 ^ 53"
  have "int (length values) \<le> 2 ^ 53"
    using len of_nat_le_iff[where 'a = int, of "length values" "2 ^ 53"] by simp
  then have small: "\<bar>k + 1\<bar> \<le> 2 ^ 53"
    using assms(1,2) by simp
  have "val i + 1 = of_int (k + 1)" "val i + 1 \<noteq> 0"
    using assms(1,3) by auto
  then have "plus_double e i (Fin 1) = double e (of_int (k + 1))"
    using assms(3) by (auto simp: plus_double_def isInfinite_def)
  then have "plus_double e i (Fin 1) = Fin (of_int (k + 1))"
    using small by (simp only: double_of_int)
  then show "elementAt values (plus_double e i (Fin 1)) = Some (values ! nat (k + 1))"
    using next_read by (simp only: elementAt_of_int)
qed

lemma segmentIndex_singleton:
  assumes "length values = 1" "t \<noteq> NaN" "\<not> isInfinite t"
  shows "segmentIndex e values t = Fin (- 1)"
proof -
  have "times_double e t (Fin 0) = Fin 0 \<or> times_double e t (Fin 0) = NegZero"
    using assms(2,3) by (simp add: times_double_def isZero_def isInfinite_def signedZero_def)
  then have "Math_floor (times_double e t (Fin 0)) = Fin 0 \<or>
      Math_floor (times_double e t (Fin 0)) = NegZero"
    by auto
  then show ?thesis
    using assms(1) by (auto simp: segmentIndex_def clamp_number_def less_number_def)
qed

lemma segmentIndex_singleton_read:
  assumes "length values = 1"
  shows "elementAt values (segmentIndex e values t) = None"
proof -
  have "times_double e t (Fin 0) = Fin 0 \<or> times_double e t (Fin 0) = NegZero \<or>
      times_double e t (Fin 0) = NaN"
    by (simp add: times_double_def isZero_def isInfinite_def signedZero_def)
  then have "Math_floor (times_double e t (Fin 0)) = Fin 0 \<or>
      Math_floor (times_double e t (Fin 0)) = NegZero \<or>
      Math_floor (times_double e t (Fin 0)) = NaN"
    by auto
  then have "segmentIndex e values t = Fin (- 1) \<or> segmentIndex e values t = NaN"
    using assms by (auto simp: segmentIndex_def clamp_number_def less_number_def)
  then show ?thesis
    by (auto simp: element_def)
qed

lemma lerp_NaN: "lerp e NaN maximum progress = NaN"
  by (simp add: lerp_def plus_double_def)

lemma toFixed_NaN: "toFixed e NaN decimal = NaN"
  by (simp add: toFixed_def times_double_def divide_double_def)

lemma interpolateNumber_undefined:
  "elementAt values (segmentIndex e values t) = None \<Longrightarrow>
   interpolateNumber e values t decimal = NaN"
  by (simp add: interpolateNumber_def Let_def toNumber_def lerp_NaN toFixed_NaN)

text \<open>
  Claim C9. For every list \<open>values\<close> of at least two elements and every \<open>t\<close> other than
  NaN, the index \<open>i\<close> that \<open>interpolateNumber\<close> computes is an integer \<open>k\<close> with
  \<open>0 \<le> k \<le> length - 2\<close> (the negative zero stands for the index 0), so the read
  \<open>values[i]\<close> is in bounds and the index \<open>k + 1\<close> is in bounds too; on a list of at
  most \<open>2^53\<close> elements, as every array is, \<open>i + 1\<close> is computed exactly and the read
  \<open>values[i + 1]\<close> is the element at \<open>k + 1\<close>. This holds whatever the rounding of the
  arithmetic is. For a one-element list the index is \<open>-1\<close> for every finite \<open>t\<close>, the
  first read is \<open>undefined\<close> for every \<open>t\<close>, and the function returns NaN, not the
  element of the list.
\<close>

theorem interpolateNumber_index:
  "(2 \<le> length values \<and> t \<noteq> NaN \<longrightarrow>
      (\<exists>k. 0 \<le> k \<and> k \<le> int (length values) - 2 \<and>
         (segmentIndex e values t = Fin (of_int k) \<or>
          (k = 0 \<and> segmentIndex e values t = NegZero)) \<and>
         elementAt values (segmentIndex e values t) = Some (values ! nat k) \<and>
         element values (k + 1) = Some (values ! nat (k + 1)) \<and>
         (length values \<le> 2 ^ 53 \<longrightarrow>
            elementAt values (plus_double e (segmentIndex e values t) (Fin 1)) =
              Some (values ! nat (k + 1))))) \<and>
   (length values = 1 \<longrightarrow>
      (t \<noteq> NaN \<and> \<not> isInfinite t \<longrightarrow> segmentIndex e values t = Fin (- 1)) \<and>
      elementAt values (segmentIndex e values t) = None \<and>
      interpolateNumber e values t decimal = NaN)"
proof (intro conjI impI)
  assume a: "2 \<le> length values \<and> t \<noteq> NaN"
  then obtain k where k: "0 \<le> k" "k \<le> int (length values) - 2"
    "segmentIndex e values t = Fin (of_int k) \<or> (k = 0 \<and> segmentIndex e values t = NegZero)"
    using segmentIndex_bounds[of "values" t e] by blast
  show "\<exists>k. 0 \<le> k \<and> k \<le> int (length values) - 2 \<and>
         (segmentIndex e values t = Fin (of_int k) \<or>
          (k = 0 \<and> segmentIndex e values t = NegZero)) \<and>
         elementAt values (segmentIndex e values t) = Some (values ! nat k) \<and>
         element values (k + 1) = Some (values ! nat (k + 1)) \<and>
         (length values \<le> 2 ^ 53 \<longrightarrow>
            elementAt values (plus_double e (segmentIndex e values t) (Fin 1)) =
              Some (values ! nat (k + 1)))"
    using k interpolateNumber_reads[OF k] by (intro exI[of _ k]) simp
next
  assume "length values = 1" "t \<noteq> NaN \<and> \<not> isInfinite t"
  then show "segmentIndex e values t = Fin (- 1)"
    by (intro segmentIndex_singleton) simp_all
next
  assume "length values = 1"
  then show "elementAt values (segmentIndex e values t) = None"
    by (rule segmentIndex_singleton_read)
next
  assume "length values = 1"
  then show "interpolateNumber e values t decimal = NaN"
    by (intro interpolateNumber_undefined segmentIndex_singleton_read)
qed

theorem interpolateNumber_index_witness:
  "(let e = \<lparr>nearest = Nearest,
             Math_pow = (\<lambda>a b. if a = NaN \<or> b = NaN then NaN else Fin (val a powr val b)),
             Math_atan2 = (\<lambda>y x. NaN), Math_cos = (\<lambda>a. NaN), Math_sin = (\<lambda>a. NaN)\<rparr>
    in 2 \<le> length [Fin 10, Fin 20, Fin 30] \<and> Fin (1 / 2) \<noteq> NaN \<and>
       length [Fin 10, Fin 20, Fin 30] \<le> 2 ^ 53 \<and>
       segmentIndex e [Fin 10, Fin 20, Fin 30] (Fin (1 / 2)) = Fin 1 \<and>
       elementAt [Fin 10, Fin 20, Fin 30] (segmentIndex e [Fin 10, Fin 20, Fin 30] (Fin (1 / 2))) =
         Some (Fin 20) \<and>
       elementAt [Fin 10, Fin 20, Fin 30]
         (plus_double e (segmentIndex e [Fin 10, Fin 20, Fin 30] (Fin (1 / 2))) (Fin 1)) =
         Some (Fin 30) \<and>
       length [Fin 7] = 1 \<and> \<not> isInfinite (Fin (1 / 2)) \<and>
       segmentIndex e [Fin 7] (Fin (1 / 2)) = Fin (- 1) \<and>
       interpolateNumber e [Fin 7] (Fin (1 / 2)) None = NaN)"
proof -
  define e where "e = \<lparr>nearest = Nearest,
             Math_pow = (\<lambda>a b. if a = NaN \<or> b = NaN then NaN else Fin (val a powr val b)),
             Math_atan2 = (\<lambda>y x. NaN), Math_cos = (\<lambda>a. NaN), Math_sin = (\<lambda>a. NaN)\<rparr>"
  let ?vs = "[Fin 10, Fin 20, Fin 30]"
  have len: "2 \<le> length ?vs" "length ?vs \<le> 2 ^ 53" "length [Fin 7] = 1"
    by simp_all
  have t: "Fin (1 / 2) \<noteq> NaN" "\<not> isInfinite (Fin (1 / 2))"
    by (simp_all add: isInfinite_def)
  have "times_double e (Fin (1 / 2)) (Fin 2) = Fin 1"
    by (simp add: times_double_def isInfinite_def isZero_def double_def)
  then have i: "segmentIndex e ?vs (Fin (1 / 2)) = Fin 1"
    by (simp add: segmentIndex_def clamp_number_def less_number_def)
  obtain k where k: "0 \<le> k" "k \<le> int (length ?vs) - 2"
    "segmentIndex e ?vs (Fin (1 / 2)) = Fin (of_int k) \<or>
     (k = 0 \<and> segmentIndex e ?vs (Fin (1 / 2)) = NegZero)"
    "elementAt ?vs (segmentIndex e ?vs (Fin (1 / 2))) = Some (?vs ! nat k)"
    "elementAt ?vs (plus_double e (segmentIndex e ?vs (Fin (1 / 2))) (Fin 1)) =
       Some (?vs ! nat (k + 1))"
    using interpolateNumber_index[of ?vs "Fin (1 / 2)" e] len(1,2) t(1) by blast
  have "k = 1" using k(3) unfolding i by simp
  then have reads: "elementAt ?vs (segmentIndex e ?vs (Fin (1 / 2))) = Some (Fin 20)"
    "elementAt ?vs (plus_double e (segmentIndex e ?vs (Fin (1 / 2))) (Fin 1)) =
       Some (Fin 30)"
    using k(4,5) by simp_all
  have single: "segmentIndex e [Fin 7] (Fin (1 / 2)) = Fin (- 1)"
    "interpolateNumber e [Fin 7] (Fin (1 / 2)) None = NaN"
    using interpolateNumber_index[of "[Fin 7]" "Fin (1 / 2)" e None] len(3) t by blast+
  have "2 \<le> length ?vs \<and> Fin (1 / 2) \<noteq> NaN \<and> length ?vs \<le> 2 ^ 53 \<and>
       segmentIndex e ?vs (Fin (1 / 2)) = Fin 1 \<and>
       elementAt ?vs (segmentIndex e ?vs (Fin (1 / 2))) = Some (Fin 20) \<and>
       elementAt ?vs (plus_double e (segmentIndex e ?vs (Fin (1 / 2))) (Fin 1)) =
         Some (Fin 30) \<and>
       length [Fin 7] = 1 \<and> \<not> isInfinite (Fin (1 / 2)) \<and>
       segmentIndex e [Fin 7] (Fin (1 / 2)) = Fin (- 1) \<and>
       interpolateNumber e [Fin 7] (Fin (1 / 2)) None = NaN"
    using len t i reads single by blast
  then show ?thesis
    unfolding Let_def e_def .
qed

section \<open>Properties of calculateRatioDimensions\<close>

lemma split_string_not_empty: "split_string separator s \<noteq> []"
  by (induction s) simp_all

lemma length_split_string:
  "length (split_string separator s) = Suc (length (filter (\<lambda>c. c = separator) s))"
proof (induction s)
  case Nil
  show ?case by simp
next
  case (Cons c cs)
  have "length (tl (split_string separator cs)) = length (split_string separator cs) - 1"
    by simp
  moreover have "0 < length (split_string separator cs)"
    using split_string_not_empty[of separator cs] by simp
  ultimately show ?case
    using Cons by simp
qed

lemma split_string_short:
  "length (split_string separator s) < 2 \<longleftrightarrow> separator \<notin> set s"
proof -
  have "length (filter (\<lambda>c. c = separator) s) = 0 \<longleftrightarrow> separator \<notin> set s"
    by (auto simp: filter_empty_conv)
  then show ?thesis
    unfolding length_split_string by linarith
qed

lemma split_example: "split_string CHR '':'' ''16:9:1'' = [''16'', ''9'', ''1'']"
  by simp

text \<open>
  Claim C7, as stated, fails: the function throws only when the string splits into fewer
  than two parts. The string \<open>16:9:1\<close> splits into three parts, not two, and the
  function returns a dimension; \<open>Number\<close> is given on the three parts.
\<close>

theorem calculateRatioDimensions_counterexample:
  "split_string CHR '':'' ''16:9:1'' = [''16'', ''9'', ''1''] \<and>
   length (split_string CHR '':'' ''16:9:1'') \<noteq> 2 \<and>
   \<not> isl (calculateRatioDimensions
       (\<lambda>s. if s = ''16'' then Fin 16 else if s = ''9'' then Fin 9
            else if s = ''1'' then Fin 1 else NaN)
       (Fin 1920) (Fin 1080) ''16:9:1'')"
  by (simp add: calculateRatioDimensions_def)

text \<open>
  Claim C7, amended. \<open>calculateRatioDimensions\<close> throws exactly when the string splits
  into fewer than two colon-separated parts, that is, when it holds no colon; what it
  throws is an \<open>Error\<close>. Otherwise it converts the first two parts with \<open>Number\<close>,
  whether they are numeric or not and whatever follows them, and returns
  \<open>resizeRectToFitAspectRatio({width, height}, antecedent / consequent)\<close>.
\<close>

theorem calculateRatioDimensions_format:
  "(isl (calculateRatioDimensions Number w h aspectRatio) \<longleftrightarrow>
      length (split_string CHR '':'' aspectRatio) < 2) \<and>
   (isl (calculateRatioDimensions Number w h aspectRatio) \<longleftrightarrow> CHR '':'' \<notin> set aspectRatio) \<and>
   (\<forall>e. calculateRatioDimensions Number w h aspectRatio = Inl e \<longrightarrow> (\<exists>msg. e = Error msg)) \<and>
   (CHR '':'' \<in> set aspectRatio \<longrightarrow>
      calculateRatioDimensions Number w h aspectRatio =
        Inr (resizeRectToFitAspectRatio \<lparr>width = w, height = h\<rparr>
          (divide_number (Number (split_string CHR '':'' aspectRatio ! 0))
                         (Number (split_string CHR '':'' aspectRatio ! 1)))))"
proof (intro conjI)
  show a: "isl (calculateRatioDimensions Number w h aspectRatio) \<longleftrightarrow>
      length (split_string CHR '':'' aspectRatio) < 2"
    by (simp add: calculateRatioDimensions_def Let_def)
  then show "isl (calculateRatioDimensions Number w h aspectRatio) \<longleftrightarrow>
      CHR '':'' \<notin> set aspectRatio"
    by (simp only: split_string_short)
  show "\<forall>e. calculateRatioDimensions Number w h aspectRatio = Inl e \<longrightarrow> (\<exists>msg. e = Error msg)"
    by (auto simp: calculateRatioDimensions_def Let_def split: if_splits)
  show "CHR '':'' \<in> set aspectRatio \<longrightarrow>
      calculateRatioDimensions Number w h aspectRatio =
        Inr (resizeRectToFitAspectRatio \<lparr>width = w, height = h\<rparr>
          (divide_number (Number (split_string CHR '':'' aspectRatio ! 0))
                         (Number (split_string CHR '':'' aspectRatio ! 1))))"
  proof
    assume "CHR '':'' \<in> set aspectRatio"
    then have "\<not> length (split_string CHR '':'' aspectRatio) < 2"
      by (simp only: split_string_short) simp
    then show "calculateRatioDimensions Number w h aspectRatio =
        Inr (resizeRectToFitAspectRatio \<lparr>width = w, height = h\<rparr>
          (divide_number (Number (split_string CHR '':'' aspectRatio ! 0))
                         (Number (split_string CHR '':'' aspectRatio ! 1))))"
      by (simp add: calculateRatioDimensions_def Let_def)
  qed
qed

theorem calculateRatioDimensions_format_witness:
  "CHR '':'' \<in> set ''4:3'' \<and>
   calculateRatioDimensions
       (\<lambda>s. if s = ''4'' then Fin 4 else if s = ''3'' then Fin 3 else NaN)
       (Fin 1920) (Fin 1080) ''4:3''
     = Inr \<lparr>width = Fin 1440, height = Fin 1080\<rparr> \<and>
   CHR '':'' \<notin> set ''43'' \<and>
   isl (calculateRatioDimensions
       (\<lambda>s. if s = ''4'' then Fin 4 else if s = ''3'' then Fin 3 else NaN)
       (Fin 1920) (Fin 1080) ''43'')"
proof -
  let ?Number = "\<lambda>s. if s = ''4'' then Fin 4 else if s = ''3'' then Fin 3 else NaN"
  have c: "CHR '':'' \<in> set ''4:3''" and n: "CHR '':'' \<notin> set ''43''"
    by simp_all
  have "calculateRatioDimensions ?Number (Fin 1920) (Fin 1080) ''4:3'' =
      Inr (resizeRectToFitAspectRatio \<lparr>width = Fin 1920, height = Fin 1080\<rparr>
        (divide_number (?Number (split_string CHR '':'' ''4:3'' ! 0))
                       (?Number (split_string CHR '':'' ''4:3'' ! 1))))"
    using calculateRatioDimensions_format[of ?Number "Fin 1920" "Fin 1080" "''4:3''"] c
    by blast
  then have v: "calculateRatioDimensions ?Number (Fin 1920) (Fin 1080) ''4:3'' =
      Inr \<lparr>width = Fin 1440, height = Fin 1080\<rparr>"
    by (simp add: resizeRectToFitAspectRatio_def divide_number_def times_number_def
        min_number_def less_number_def isInfinite_def isZero_def)
  have "isl (calculateRatioDimensions ?Number (Fin 1920) (Fin 1080) ''43'')"
    using calculateRatioDimensions_format[of ?Number "Fin 1920" "Fin 1080" "''43''"] n
    by blast
  then show ?thesis
    using c v n by blast
qed

end
